theory Spec2Isabelle
  imports Main "HOL-Library.Sublist" "HOL-Library.Multiset" "HOL-Library.AList"
begin

section \<open>Go strings as byte lists\<close>

text \<open>
  A Go \<^verbatim>\<open>string\<close> is a sequence of bytes; it is modelled as \<^typ>\<open>string\<close>
  (a list of 8-bit characters). The functions of package \<^verbatim>\<open>strings\<close> that
  the linter calls are modelled below, under their Go names.
  \<^verbatim>\<open>strings.HasPrefix\<close>, \<^verbatim>\<open>strings.HasSuffix\<close> and
  \<^verbatim>\<open>strings.Contains\<close> are the library predicates \<^const>\<open>prefix\<close>,
  \<^const>\<open>suffix\<close> and \<^const>\<open>sublist\<close> with the arguments in Go's order.
\<close>

definition HasPrefix :: "string \<Rightarrow> string \<Rightarrow> bool" where
  "HasPrefix s p = prefix p s"

definition HasSuffix :: "string \<Rightarrow> string \<Rightarrow> bool" where
  "HasSuffix s p = suffix p s"

definition Contains :: "string \<Rightarrow> string \<Rightarrow> bool" where
  "Contains s sub = sublist sub s"

definition TrimPrefix :: "string \<Rightarrow> string \<Rightarrow> string" where
  "TrimPrefix s p = (if HasPrefix s p then drop (length p) s else s)"

text \<open>\<^verbatim>\<open>strings.Repeat(" ", n)\<close>.\<close>

definition Repeat_space :: "nat \<Rightarrow> string" where
  "Repeat_space n = replicate n (CHR '' '')"

text \<open>\<^verbatim>\<open>strings.TrimLeft(s, " ")\<close>: the cutset is the single space character.\<close>

definition TrimLeft_space :: "string \<Rightarrow> string" where
  "TrimLeft_space s = dropWhile (\<lambda>c. c = CHR '' '') s"

text \<open>
  \<^verbatim>\<open>strings.Split(s, "\n")\<close>: the pieces between the newline bytes; the
  result always has at least one element.
\<close>

fun Split_nl :: "string \<Rightarrow> string list" where
  "Split_nl [] = [[]]"
| "Split_nl (c # cs) =
     (if c = CHR 0x0A then [] # Split_nl cs
      else (case Split_nl cs of
              [] \<Rightarrow> [[c]]
            | l # ls \<Rightarrow> (c # l) # ls))"

text \<open>\<^verbatim>\<open>strings.Join(lines, "\n")\<close>.\<close>

fun Join_nl :: "string list \<Rightarrow> string" where
  "Join_nl [] = []"
| "Join_nl [l] = l"
| "Join_nl (l # ls) = l @ CHR 0x0A # Join_nl ls"

text \<open>
  \<^verbatim>\<open>strings.TrimSpace\<close> removes leading and trailing white space as
  \<^verbatim>\<open>unicode.IsSpace\<close> defines it. On the bytes of the string that means:
  the six ASCII space bytes and the UTF-8 encodings of U+0085, U+00A0, U+1680,
  U+2000 to U+200A, U+2028, U+2029, U+202F, U+205F and U+3000. A byte sequence that
  is not valid UTF-8 decodes to U+FFFD, which is not white space, so only these exact
  encodings are removed.
\<close>

definition whiteSpaceRunes :: "string list" where
  "whiteSpaceRunes =
     [[CHR 0x09], [CHR 0x0A], [CHR 0x0B], [CHR 0x0C], [CHR 0x0D], [CHR 0x20],
      [CHR 0xC2, CHR 0x85], [CHR 0xC2, CHR 0xA0],
      [CHR 0xE1, CHR 0x9A, CHR 0x80],
      [CHR 0xE2, CHR 0x80, CHR 0x80], [CHR 0xE2, CHR 0x80, CHR 0x81],
      [CHR 0xE2, CHR 0x80, CHR 0x82], [CHR 0xE2, CHR 0x80, CHR 0x83],
      [CHR 0xE2, CHR 0x80, CHR 0x84], [CHR 0xE2, CHR 0x80, CHR 0x85],
      [CHR 0xE2, CHR 0x80, CHR 0x86], [CHR 0xE2, CHR 0x80, CHR 0x87],
      [CHR 0xE2, CHR 0x80, CHR 0x88], [CHR 0xE2, CHR 0x80, CHR 0x89],
      [CHR 0xE2, CHR 0x80, CHR 0x8A],
      [CHR 0xE2, CHR 0x80, CHR 0xA8], [CHR 0xE2, CHR 0x80, CHR 0xA9],
      [CHR 0xE2, CHR 0x80, CHR 0xAF],
      [CHR 0xE2, CHR 0x81, CHR 0x9F],
      [CHR 0xE3, CHR 0x80, CHR 0x80]]"

text \<open>The white-space rune a byte string starts with, and the one it ends with.\<close>

definition leadingSpaceRune :: "string \<Rightarrow> string option" where
  "leadingSpaceRune s = find (\<lambda>e. prefix e s) whiteSpaceRunes"

definition trailingSpaceRune :: "string \<Rightarrow> string option" where
  "trailingSpaceRune s = find (\<lambda>e. suffix e s) whiteSpaceRunes"

lemma whiteSpaceRunes_nonempty: "e \<in> set whiteSpaceRunes \<Longrightarrow> e \<noteq> []"
  by (auto simp: whiteSpaceRunes_def)

lemma leadingSpaceRune_Some:
  "leadingSpaceRune s = Some e \<Longrightarrow> e \<in> set whiteSpaceRunes \<and> prefix e s"
  unfolding leadingSpaceRune_def by (auto simp: find_Some_iff)

lemma trailingSpaceRune_Some:
  "trailingSpaceRune s = Some e \<Longrightarrow> e \<in> set whiteSpaceRunes \<and> suffix e s"
  unfolding trailingSpaceRune_def by (auto simp: find_Some_iff)

function TrimLeftSpace :: "string \<Rightarrow> string" where
  "TrimLeftSpace s =
     (case leadingSpaceRune s of
        None \<Rightarrow> s
      | Some e \<Rightarrow> TrimLeftSpace (drop (length e) s))"
  by pat_completeness auto
termination
proof (relation "measure length")
  show "wf (measure length)" by simp
next
  fix s e
  assume "leadingSpaceRune s = Some e"
  then have "e \<noteq> []" and "prefix e s"
    using leadingSpaceRune_Some whiteSpaceRunes_nonempty by blast+
  then have "0 < length e" and "length e \<le> length s"
    by (auto dest: prefix_length_le)
  then have "length s - length e < length s" by arith
  then show "(drop (length e) s, s) \<in> measure length" by simp
qed

function TrimRightSpace :: "string \<Rightarrow> string" where
  "TrimRightSpace s =
     (case trailingSpaceRune s of
        None \<Rightarrow> s
      | Some e \<Rightarrow> TrimRightSpace (take (length s - length e) s))"
  by pat_completeness auto
termination
proof (relation "measure length")
  show "wf (measure length)" by simp
next
  fix s e
  assume "trailingSpaceRune s = Some e"
  then have "e \<noteq> []" and "suffix e s"
    using trailingSpaceRune_Some whiteSpaceRunes_nonempty by blast+
  then have "0 < length e" and "length e \<le> length s"
    by (auto dest: suffix_length_le)
  then have "length s - length e < length s" by arith
  then show "(take (length s - length e) s, s) \<in> measure length" by simp
qed

definition TrimSpace :: "string \<Rightarrow> string" where
  "TrimSpace s = TrimRightSpace (TrimLeftSpace s)"

section \<open>Indentation resolution\<close>

datatype error =
    IndexOutOfRange
  | SliceOutOfRange
  | ReadError string
  | WriteError string
  | LstatError string

text \<open>Indexing a slice with a Go \<^verbatim>\<open>int\<close>: out of range is a run-time panic.\<close>

definition index :: "'a list \<Rightarrow> int \<Rightarrow> error + 'a" where
  "index xs i =
     (if 0 \<le> i \<and> i < int (length xs) then Inr (xs ! nat i) else Inl IndexOutOfRange)"

text \<open>
  \<^verbatim>\<open>len(l) - len(strings.TrimLeft(l, " "))\<close>: the number of leading spaces.
\<close>

definition leadingSpaces :: "string \<Rightarrow> nat" where
  "leadingSpaces l = length l - length (TrimLeft_space l)"

definition endsBlockScalar :: "string \<Rightarrow> bool" where
  "endsBlockScalar l = HasSuffix (TrimSpace l) ''|''"

text \<open>
  The loop \<^verbatim>\<open>for i := start; i >= 0; i--\<close> of \<^verbatim>\<open>findIndentation\<close>:
  \<open>Inr (Some n)\<close> when the loop body returns \<open>n\<close>, \<open>Inr None\<close> when the loop
  runs out, \<open>Inl\<close> when a read panics.
\<close>

function findIndentation_loop :: "string list \<Rightarrow> int \<Rightarrow> error + nat option" where
  "findIndentation_loop lines i =
     (if i \<ge> 0 then
        (case index lines i of
           Inl e \<Rightarrow> Inl e
         | Inr l \<Rightarrow>
             if endsBlockScalar l then Inr (Some (leadingSpaces l + 2))
             else findIndentation_loop lines (i - 1))
      else Inr None)"
  by pat_completeness auto
termination
  by (relation "measure (\<lambda>(lines, i). nat (i + 1))") auto

definition findIndentation :: "string list \<Rightarrow> int \<Rightarrow> error + nat" where
  "findIndentation lines start =
     (case findIndentation_loop lines start of
        Inl e \<Rightarrow> Inl e
      | Inr (Some n) \<Rightarrow> Inr n
      | Inr None \<Rightarrow>
          (case index lines start of
             Inl e \<Rightarrow> Inl e
           | Inr l \<Rightarrow> Inr (leadingSpaces l)))"

declare findIndentation_loop.simps [simp del]
declare TrimLeftSpace.simps [simp del]
declare TrimRightSpace.simps [simp del]

lemma findIndentation_loop_neg: "i < 0 \<Longrightarrow> findIndentation_loop lines i = Inr None"
  by (subst findIndentation_loop.simps) simp

lemma findIndentation_loop_step:
  "m < length lines \<Longrightarrow>
   findIndentation_loop lines (int m) =
     (if endsBlockScalar (lines ! m) then Inr (Some (leadingSpaces (lines ! m) + 2))
      else findIndentation_loop lines (int m - 1))"
  by (subst findIndentation_loop.simps) (simp add: index_def)

text \<open>
  What the backward loop returns when it starts at index \<open>m - 1\<close> of a list with at
  least \<open>m\<close> lines: the indentation of the nearest block-scalar line below \<open>m\<close>, or
  nothing when there is none. No read panics.
\<close>

lemma findIndentation_loop_result:
  "m \<le> length lines \<Longrightarrow>
   (\<exists>j<m. endsBlockScalar (lines ! j) \<and>
      (\<forall>k. j < k \<and> k < m \<longrightarrow> \<not> endsBlockScalar (lines ! k)) \<and>
      findIndentation_loop lines (int m - 1) = Inr (Some (leadingSpaces (lines ! j) + 2)))
   \<or> ((\<forall>j<m. \<not> endsBlockScalar (lines ! j)) \<and>
      findIndentation_loop lines (int m - 1) = Inr None)"
proof (induction m)
  case 0
  then show ?case by (simp add: findIndentation_loop_neg)
next
  case (Suc m)
  then have m: "m < length lines" and IH: "(\<exists>j<m. endsBlockScalar (lines ! j) \<and>
      (\<forall>k. j < k \<and> k < m \<longrightarrow> \<not> endsBlockScalar (lines ! k)) \<and>
      findIndentation_loop lines (int m - 1) = Inr (Some (leadingSpaces (lines ! j) + 2)))
   \<or> ((\<forall>j<m. \<not> endsBlockScalar (lines ! j)) \<and>
      findIndentation_loop lines (int m - 1) = Inr None)" by simp_all
  have eq: "int (Suc m) - 1 = int m" by simp
  show ?case
  proof (cases "endsBlockScalar (lines ! m)")
    case True
    then have "findIndentation_loop lines (int m) = Inr (Some (leadingSpaces (lines ! m) + 2))"
      using m by (simp add: findIndentation_loop_step)
    with True show ?thesis unfolding eq
      by (intro disjI1 exI [of _ m]) auto
  next
    case False
    then have step: "findIndentation_loop lines (int m) = findIndentation_loop lines (int m - 1)"
      using m by (simp add: findIndentation_loop_step)
    from IH show ?thesis
    proof
      assume "\<exists>j<m. endsBlockScalar (lines ! j) \<and>
      (\<forall>k. j < k \<and> k < m \<longrightarrow> \<not> endsBlockScalar (lines ! k)) \<and>
      findIndentation_loop lines (int m - 1) = Inr (Some (leadingSpaces (lines ! j) + 2))"
      then obtain j where j: "j < m" "endsBlockScalar (lines ! j)"
        "\<forall>k. j < k \<and> k < m \<longrightarrow> \<not> endsBlockScalar (lines ! k)"
        "findIndentation_loop lines (int m - 1) = Inr (Some (leadingSpaces (lines ! j) + 2))"
        by blast
      from j(3) False have "\<forall>k. j < k \<and> k < Suc m \<longrightarrow> \<not> endsBlockScalar (lines ! k)"
        by (auto simp: less_Suc_eq)
      with j step show ?thesis unfolding eq
        by (intro disjI1 exI [of _ j]) auto
    next
      assume a: "(\<forall>j<m. \<not> endsBlockScalar (lines ! j)) \<and>
        findIndentation_loop lines (int m - 1) = Inr None"
      with False have "\<forall>j<Suc m. \<not> endsBlockScalar (lines ! j)"
        by (auto simp: less_Suc_eq)
      with a step show ?thesis unfolding eq by auto
    qed
  qed
qed

text \<open>
  Claim C1, as the code has it. For every list of lines and every valid index \<open>i\<close>,
  \<^const>\<open>findIndentation\<close> returns without a panic (no read outside the list, in
  particular none below index 0): if some line at or before \<open>i\<close> has trimmed content
  ending in \<open>|\<close>, the result is the leading-space count of the nearest such line
  plus 2; otherwise it is the leading-space count of line \<open>i\<close> itself. A line at
  index 0 whose own trimmed content does not end in \<open>|\<close> resolves to its own
  leading-space count. For the three lines of the example, index 2 resolves to 5.
\<close>

theorem findIndentation_resolves:
  "(i < length lines \<longrightarrow>
      (\<exists>j\<le>i. endsBlockScalar (lines ! j) \<and>
         (\<forall>k. j < k \<and> k \<le> i \<longrightarrow> \<not> endsBlockScalar (lines ! k)) \<and>
         findIndentation lines (int i) = Inr (leadingSpaces (lines ! j) + 2))
      \<or> ((\<forall>j\<le>i. \<not> endsBlockScalar (lines ! j)) \<and>
         findIndentation lines (int i) = Inr (leadingSpaces (lines ! i))))
   \<and> (lines \<noteq> [] \<and> \<not> endsBlockScalar (lines ! 0) \<longrightarrow>
        findIndentation lines 0 = Inr (leadingSpaces (lines ! 0)))
   \<and> findIndentation [''   foo: |'', ''# foobar'', ''  {{ if foo }}''] 2 = Inr 5"
proof (intro conjI impI)
  assume i: "i < length lines"
  then have "Suc i \<le> length lines" by simp
  from findIndentation_loop_result [OF this]
  show "(\<exists>j\<le>i. endsBlockScalar (lines ! j) \<and>
         (\<forall>k. j < k \<and> k \<le> i \<longrightarrow> \<not> endsBlockScalar (lines ! k)) \<and>
         findIndentation lines (int i) = Inr (leadingSpaces (lines ! j) + 2))
      \<or> ((\<forall>j\<le>i. \<not> endsBlockScalar (lines ! j)) \<and>
         findIndentation lines (int i) = Inr (leadingSpaces (lines ! i)))"
    using i by (auto simp: findIndentation_def index_def less_Suc_eq_le)
next
  assume a: "lines \<noteq> [] \<and> \<not> endsBlockScalar (lines ! 0)"
  then have "0 < length lines" by simp
  then have "findIndentation_loop lines 0 = Inr None"
    using a findIndentation_loop_step [of 0 lines] by (simp add: findIndentation_loop_neg)
  then show "findIndentation lines 0 = Inr (leadingSpaces (lines ! 0))"
    using a by (simp add: findIndentation_def index_def)
next
  show "findIndentation [''   foo: |'', ''# foobar'', ''  {{ if foo }}''] 2 = Inr 5"
    by code_simp
qed

theorem findIndentation_resolves_witness:
  "(1::nat) < length [''  data: |'', ''    {{- if .Values.x }}'']
   \<and> findIndentation [''  data: |'', ''    {{- if .Values.x }}''] 1 = Inr 4
   \<and> [''  {{ if foo }}''] \<noteq> []
   \<and> \<not> endsBlockScalar ([''  {{ if foo }}''] ! 0)
   \<and> findIndentation [''  {{ if foo }}''] 0 = Inr 2"
proof -
  let ?L = "[''  data: |'', ''    {{- if .Values.x }}'']"
  have e0: "endsBlockScalar (?L ! 0)" by code_simp
  have e1: "\<not> endsBlockScalar (?L ! 1)" by code_simp
  have l0: "leadingSpaces (?L ! 0) = 2" by code_simp
  have len: "(1::nat) < length ?L" by simp
  have "(\<exists>j\<le>1. endsBlockScalar (?L ! j) \<and>
         (\<forall>k. j < k \<and> k \<le> 1 \<longrightarrow> \<not> endsBlockScalar (?L ! k)) \<and>
         findIndentation ?L (int 1) = Inr (leadingSpaces (?L ! j) + 2))
      \<or> ((\<forall>j\<le>1. \<not> endsBlockScalar (?L ! j)) \<and>
         findIndentation ?L (int 1) = Inr (leadingSpaces (?L ! 1)))"
    using findIndentation_resolves [of 1 ?L] len by blast
  then have r1: "findIndentation ?L 1 = Inr 4"
  proof
    assume "\<exists>j\<le>1. endsBlockScalar (?L ! j) \<and>
         (\<forall>k. j < k \<and> k \<le> 1 \<longrightarrow> \<not> endsBlockScalar (?L ! k)) \<and>
         findIndentation ?L (int 1) = Inr (leadingSpaces (?L ! j) + 2)"
    then obtain j where j: "j \<le> 1" "endsBlockScalar (?L ! j)"
      "findIndentation ?L (int 1) = Inr (leadingSpaces (?L ! j) + 2)" by blast
    from j(1) have "j = 0 \<or> j = 1" by arith
    with j(2) e1 have "j = 0" by blast
    with j(3) l0 show ?thesis by simp
  next
    assume "(\<forall>j\<le>1. \<not> endsBlockScalar (?L ! j)) \<and>
         findIndentation ?L (int 1) = Inr (leadingSpaces (?L ! 1))"
    then have "\<not> endsBlockScalar (?L ! 0)" by blast
    with e0 show ?thesis by blast
  qed
  let ?M = "[''  {{ if foo }}'']"
  have m0: "\<not> endsBlockScalar (?M ! 0)" by code_simp
  have m1: "leadingSpaces (?M ! 0) = 2" by code_simp
  have "findIndentation ?M 0 = Inr (leadingSpaces (?M ! 0))"
    using findIndentation_resolves [of 0 ?M] m0 by blast
  with m1 have r2: "findIndentation ?M 0 = Inr 2" by simp
  from len r1 m0 r2 show ?thesis by simp
qed

section \<open>Declaration detection\<close>

text \<open>
  \<^verbatim>\<open>conditionalRegex = regexp.MustCompile(`{{-?\s*if`)\<close>. In Go's regexp syntax
  \<^verbatim>\<open>\s\<close> is the class \<^verbatim>\<open>[\t\n\f\r ]\<close>. \<^verbatim>\<open>MatchString\<close> reports whether
  the pattern matches anywhere in the string: \<open>conditionalRegex_matchHere\<close> matches
  it at the start of a string, \<open>conditionalRegex_MatchString\<close> tries every position.
\<close>

definition isRegexSpace :: "char \<Rightarrow> bool" where
  "isRegexSpace c = (c \<in> set [CHR 0x09, CHR 0x0A, CHR 0x0C, CHR 0x0D, CHR 0x20])"

definition conditionalRegex_matchHere :: "string \<Rightarrow> bool" where
  "conditionalRegex_matchHere s =
     (case s of
        c1 # c2 # r \<Rightarrow>
          c1 = CHR ''{'' \<and> c2 = CHR ''{'' \<and>
          HasPrefix
            (dropWhile isRegexSpace
               (case r of [] \<Rightarrow> [] | d # r' \<Rightarrow> if d = CHR ''-'' then r' else r))
            ''if''
      | _ \<Rightarrow> False)"

fun conditionalRegex_MatchString :: "string \<Rightarrow> bool" where
  "conditionalRegex_MatchString [] = False"
| "conditionalRegex_MatchString (c # cs) =
     (conditionalRegex_matchHere (c # cs) \<or> conditionalRegex_MatchString cs)"

text \<open>
  The specification's words for the same pattern: the line contains \<open>{{\<close>,
  optionally followed by \<open>-\<close>, then optional white space, then \<open>if\<close>.
\<close>

definition ifOpeningTag :: "string \<Rightarrow> bool" where
  "ifOpeningTag l =
     (\<exists>pre dash ws post.
        l = pre @ ''{{'' @ dash @ ws @ ''if'' @ post \<and>
        (dash = [] \<or> dash = ''-'') \<and> list_all isRegexSpace ws)"

definition ignoreMarker :: string where
  "ignoreMarker = ''helmlint:ignore''"

definition markerPrefix :: string where
  "markerPrefix = ''# helmlint: ''"

section \<open>The file system\<close>

text \<open>
  The file system is the list of its entries (directories and regular files), each
  with its full path, in the lexical order in which \<^verbatim>\<open>filepath.Walk\<close> visits
  them. Paths are clean and slash-separated; a well-formed file system has no two
  entries with the same path.
\<close>

record entry =
  Path :: string
  IsDir :: bool
  Content :: string

type_synonym filesystem = "entry list"

text \<open>\<^verbatim>\<open>info.Name()\<close>: the last element of the path.\<close>

definition Name :: "entry \<Rightarrow> string" where
  "Name e = rev (takeWhile (\<lambda>c. c \<noteq> CHR ''/'') (rev (Path e)))"

text \<open>
  \<^verbatim>\<open>filepath.Join(dir, rel)\<close> for a clean directory path other than the root
  and a clean relative path.
\<close>

definition Join :: "string \<Rightarrow> string \<Rightarrow> string" where
  "Join dir rel = dir @ ''/'' @ rel"

text \<open>The entries at and below \<open>dir\<close>.\<close>

definition walkEntries :: "string \<Rightarrow> filesystem \<Rightarrow> entry list" where
  "walkEntries dir fs = filter (\<lambda>e. Path e = dir \<or> HasPrefix (Path e) (dir @ ''/'')) fs"

text \<open>
  The entries \<^verbatim>\<open>filepath.Walk(dir, ...)\<close> hands to its callback without an
  error. When \<^verbatim>\<open>os.Lstat(dir)\<close> fails the callback gets the error, and the
  callbacks of \<^verbatim>\<open>injectComments\<close> and \<^verbatim>\<open>discoverComments\<close> return it, which
  ends the walk. A root that is a regular file is the only entry visited.
\<close>

definition Walk :: "string \<Rightarrow> filesystem \<Rightarrow> error + entry list" where
  "Walk dir fs =
     (case find (\<lambda>e. Path e = dir) fs of
        None \<Rightarrow> Inl (LstatError dir)
      | Some root \<Rightarrow> if IsDir root then Inr (walkEntries dir fs) else Inr [root])"

definition ReadFile :: "string \<Rightarrow> filesystem \<Rightarrow> error + string" where
  "ReadFile p fs =
     (case find (\<lambda>e. Path e = p) fs of
        None \<Rightarrow> Inl (ReadError p)
      | Some e \<Rightarrow> if IsDir e then Inl (ReadError p) else Inr (Content e))"

text \<open>
  \<^verbatim>\<open>os.WriteFile\<close> replaces the content of an existing regular file, and
  creates the file when there is none.
\<close>

definition WriteFile :: "string \<Rightarrow> string \<Rightarrow> filesystem \<Rightarrow> error + filesystem" where
  "WriteFile p data fs =
     (case find (\<lambda>e. Path e = p) fs of
        None \<Rightarrow> Inr (fs @ [\<lparr>Path = p, IsDir = False, Content = data\<rparr>])
      | Some e \<Rightarrow>
          if IsDir e then Inl (WriteError p)
          else Inr (map (\<lambda>e. if Path e = p then e\<lparr>Content := data\<rparr> else e) fs))"

section \<open>The marker injector\<close>

record conditionalDeclRef =
  File :: string
  Line :: int
  Expr :: string

text \<open>
  The Go map \<^verbatim>\<open>map[string]*conditionalDeclRef\<close> is an association list with
  distinct keys; \<^verbatim>\<open>comments[id] = ref\<close> is \<^const>\<open>AList.update\<close>. The order
  of the list stands for the order in which a \<^verbatim>\<open>range\<close> over the map yields
  its entries, which Go leaves unspecified.
\<close>

type_synonym registry = "(string \<times> conditionalDeclRef) list"

text \<open>
  \<^verbatim>\<open>uuid.NewString()\<close> is the parameter \<open>uuid\<close>: \<open>uuid n\<close> is the value of
  the call number \<open>n\<close> of the run. A version-4 UUID is 36 characters, hexadecimal
  digits and hyphens.
\<close>

definition isUUIDString :: "string \<Rightarrow> bool" where
  "isUUIDString s = (length s = 36 \<and> list_all (\<lambda>c. c \<in> set ''0123456789abcdef-'') s)"

text \<open>
  \<^verbatim>\<open>for _, x := range xs { ... }\<close> with a body that may fail: the loop stops at
  the first failure.
\<close>

fun forEach :: "('a \<Rightarrow> 's \<Rightarrow> error + 's) \<Rightarrow> 'a list \<Rightarrow> 's \<Rightarrow> error + 's" where
  "forEach f [] s = Inr s"
| "forEach f (i # is) s =
     (case f i s of Inl e \<Rightarrow> Inl e | Inr s' \<Rightarrow> forEach f is s')"

text \<open>
  The body of \<^verbatim>\<open>for i, line := range lines\<close> in \<^verbatim>\<open>injectComments\<close>, for an
  index \<open>i\<close> of \<open>lines\<close>. The state is the line slice (updated in place by the
  source), the registry and the number of tokens drawn so far. The slice expression
  \<^verbatim>\<open>path[len(dir)+1:]\<close> panics when the path is too short.
\<close>

definition injectLine ::
  "(nat \<Rightarrow> string) \<Rightarrow> string \<Rightarrow> string \<Rightarrow> nat \<Rightarrow>
   string list \<times> registry \<times> nat \<Rightarrow> error + string list \<times> registry \<times> nat" where
  "injectLine uuid dir path i st =
     (case st of (lines, comments, n) \<Rightarrow>
        let line = lines ! i in
        if \<not> conditionalRegex_MatchString line \<or>
           Contains (lines ! i) ignoreMarker \<or>
           (i > 0 \<and> Contains (lines ! (i - 1)) ignoreMarker)
        then Inr st
        else
          let id = uuid n in
          (case findIndentation lines (int i) of
             Inl e \<Rightarrow> Inl e
           | Inr k \<Rightarrow>
               if length path < length dir + 1 then Inl SliceOutOfRange
               else
                 Inr (lines[i := line @ [CHR 0x0A] @ Repeat_space k @ markerPrefix @ id],
                      AList.update id
                        \<lparr>File = drop (length dir + 1) path, Line = int i,
                         Expr = TrimSpace line\<rparr> comments,
                      Suc n)))"

text \<open>The goroutine \<^verbatim>\<open>injectComments\<close> starts for one file.\<close>

definition injectFile ::
  "(nat \<Rightarrow> string) \<Rightarrow> string \<Rightarrow> string \<Rightarrow>
   filesystem \<times> registry \<times> nat \<Rightarrow> error + filesystem \<times> registry \<times> nat" where
  "injectFile uuid dir path st =
     (case st of (fs, comments, n) \<Rightarrow>
        (case ReadFile path fs of
           Inl e \<Rightarrow> Inl e
         | Inr content \<Rightarrow>
             let lines = Split_nl content in
             (case forEach (injectLine uuid dir path) [0..<length lines]
                     (lines, comments, n) of
                Inl e \<Rightarrow> Inl e
              | Inr (lines', comments', n') \<Rightarrow>
                  (case WriteFile path (Join_nl lines') fs of
                     Inl e \<Rightarrow> Inl e
                   | Inr fs' \<Rightarrow> Inr (fs', comments', n')))))"

text \<open>
  The callback of \<^verbatim>\<open>filepath.Walk\<close>: directories and files whose name does not
  end in \<open>.yaml\<close> are passed over.
\<close>

definition isYamlFile :: "entry \<Rightarrow> bool" where
  "isYamlFile e = (\<not> (IsDir e \<or> \<not> HasSuffix (Name e) ''.yaml''))"

fun injectWalk ::
  "(nat \<Rightarrow> string) \<Rightarrow> string \<Rightarrow> entry list \<Rightarrow>
   filesystem \<times> registry \<times> nat \<Rightarrow> error + filesystem \<times> registry \<times> nat" where
  "injectWalk uuid dir [] st = Inr st"
| "injectWalk uuid dir (e # es) st =
     (if IsDir e \<or> \<not> HasSuffix (Name e) ''.yaml'' then injectWalk uuid dir es st
      else (case injectFile uuid dir (Path e) st of
              Inl err \<Rightarrow> Inl err
            | Inr st' \<Rightarrow> injectWalk uuid dir es st'))"

text \<open>
  \<^verbatim>\<open>injectComments\<close> returns the registry; its effect on the files is the
  first component. The goroutines of the source work on different files and share
  only the registry, which they update under a lock, so their effects are those
  of running them one after the other.
\<close>

definition injectComments ::
  "(nat \<Rightarrow> string) \<Rightarrow> string \<Rightarrow> filesystem \<Rightarrow> error + filesystem \<times> registry" where
  "injectComments uuid dir fs =
     (case Walk dir fs of
        Inl e \<Rightarrow> Inl e
      | Inr es \<Rightarrow>
          (case injectWalk uuid dir es (fs, [], 0) of
             Inl e \<Rightarrow> Inl e
           | Inr (fs', comments, n) \<Rightarrow> Inr (fs', comments)))"

section \<open>Properties of declaration detection\<close>

text \<open>
  The counterexample to the last clause of claim C1 as the specification words it:
  the single line \<open>{{ if foo }} |\<close> is a declaration at line 0 (it matches the
  pattern and carries no suppression marker), its leading-space count is 0, and it
  resolves to 2, because the backward scan starts at the line itself.
\<close>

theorem findIndentation_line0_counterexample:
  "conditionalRegex_MatchString ''{{ if foo }} |''
   \<and> Contains ''{{ if foo }} |'' ignoreMarker = False
   \<and> leadingSpaces ''{{ if foo }} |'' = 0
   \<and> findIndentation [''{{ if foo }} |''] 0 = Inr 2"
  by code_simp


lemma matchHere_iff:
  "conditionalRegex_matchHere s =
   (\<exists>dash ws post. s = ''{{'' @ dash @ ws @ ''if'' @ post \<and>
      (dash = [] \<or> dash = ''-'') \<and> list_all isRegexSpace ws)"
proof
  assume m: "conditionalRegex_matchHere s"
  then obtain r where s: "s = CHR ''{'' # CHR ''{'' # r"
    by (auto simp: conditionalRegex_matchHere_def split: list.splits)
  define r1 where "r1 = (case r of [] \<Rightarrow> [] | d # r' \<Rightarrow> if d = CHR ''-'' then r' else r)"
  define dash where "dash = (case r of [] \<Rightarrow> [] | d # r' \<Rightarrow> if d = CHR ''-'' then ''-'' else [])"
  have r: "r = dash @ r1" and d: "dash = [] \<or> dash = ''-''"
    by (auto simp: r1_def dash_def split: list.splits)
  from m s have "prefix ''if'' (dropWhile isRegexSpace r1)"
    by (simp add: conditionalRegex_matchHere_def HasPrefix_def r1_def)
  then obtain post where p: "dropWhile isRegexSpace r1 = ''if'' @ post"
    by (auto simp: prefix_def)
  have "r1 = takeWhile isRegexSpace r1 @ dropWhile isRegexSpace r1" by simp
  with p have "r1 = takeWhile isRegexSpace r1 @ ''if'' @ post" by simp
  moreover have "list_all isRegexSpace (takeWhile isRegexSpace r1)"
    by (simp add: list_all_iff) (meson set_takeWhileD)
  ultimately show "\<exists>dash ws post. s = ''{{'' @ dash @ ws @ ''if'' @ post \<and>
      (dash = [] \<or> dash = ''-'') \<and> list_all isRegexSpace ws"
    using s r d by (intro exI [of _ dash] exI [of _ "takeWhile isRegexSpace r1"] exI [of _ post]) auto
next
  assume "\<exists>dash ws post. s = ''{{'' @ dash @ ws @ ''if'' @ post \<and>
      (dash = [] \<or> dash = ''-'') \<and> list_all isRegexSpace ws"
  then obtain dash ws post where s: "s = ''{{'' @ dash @ ws @ ''if'' @ post"
    and d: "dash = [] \<or> dash = ''-''" and w: "list_all isRegexSpace ws" by blast
  have i: "\<not> isRegexSpace CHR ''i''" by (simp add: isRegexSpace_def)
  have dw: "dropWhile isRegexSpace (ws @ ''if'' @ post) = ''if'' @ post"
    using w i by (simp add: list_all_iff dropWhile_append2)
  have nd: "ws @ ''if'' @ post = c # r' \<Longrightarrow> c \<noteq> CHR ''-''" for c r'
    using w by (cases ws) (auto simp: isRegexSpace_def)
  from d show "conditionalRegex_matchHere s"
  proof
    assume "dash = []"
    with s have s': "s = CHR ''{'' # CHR ''{'' # (ws @ ''if'' @ post)" by simp
    obtain c r' where cr: "ws @ ''if'' @ post = c # r'" by (cases "ws @ ''if'' @ post") auto
    with nd have "c \<noteq> CHR ''-''" by blast
    with cr dw show ?thesis unfolding s' conditionalRegex_matchHere_def HasPrefix_def
      by (simp del: append.simps)
  next
    assume "dash = ''-''"
    with s have s': "s = CHR ''{'' # CHR ''{'' # CHR ''-'' # (ws @ ''if'' @ post)" by simp
    show ?thesis unfolding s' conditionalRegex_matchHere_def HasPrefix_def
      using dw by (simp del: append.simps)
  qed
qed

lemma MatchString_iff_split:
  "conditionalRegex_MatchString s = (\<exists>pre rest. s = pre @ rest \<and> conditionalRegex_matchHere rest)"
proof (induction s)
  case Nil
  then show ?case by (simp add: conditionalRegex_matchHere_def)
next
  case (Cons c cs)
  note IH = Cons.IH
  show ?case
  proof
    assume "conditionalRegex_MatchString (c # cs)"
    then show "\<exists>pre rest. c # cs = pre @ rest \<and> conditionalRegex_matchHere rest"
    proof (simp, elim disjE)
      assume "conditionalRegex_matchHere (c # cs)"
      then show ?thesis by (intro exI [of _ "[]"] exI [of _ "c # cs"]) simp
    next
      assume "conditionalRegex_MatchString cs"
      with IH obtain pre rest where "cs = pre @ rest" "conditionalRegex_matchHere rest"
        by blast
      then show ?thesis by (intro exI [of _ "c # pre"] exI [of _ rest]) simp
    qed
  next
    assume "\<exists>pre rest. c # cs = pre @ rest \<and> conditionalRegex_matchHere rest"
    then obtain pre rest where pr: "c # cs = pre @ rest" "conditionalRegex_matchHere rest"
      by blast
    show "conditionalRegex_MatchString (c # cs)"
    proof (cases pre)
      case Nil
      with pr have "conditionalRegex_matchHere (c # cs)" by simp
      then show ?thesis by simp
    next
      case (Cons a pre')
      with pr have "cs = pre' @ rest" by simp
      with pr(2) IH have "conditionalRegex_MatchString cs" by blast
      then show ?thesis by simp
    qed
  qed
qed

lemma MatchString_ifOpeningTag: "conditionalRegex_MatchString l = ifOpeningTag l"
  unfolding MatchString_iff_split matchHere_iff ifOpeningTag_def by (simp del: append.simps) blast

section \<open>The line classifier on a list of source lines\<close>

text \<open>
  The condition under which the loop of \<^verbatim>\<open>injectComments\<close> does not
  \<^verbatim>\<open>continue\<close>, read on a list of lines: line \<open>i\<close> is a declaration.
\<close>

definition isDeclaration :: "string list \<Rightarrow> nat \<Rightarrow> bool" where
  "isDeclaration lines i =
     (\<not> (\<not> conditionalRegex_MatchString (lines ! i) \<or>
         Contains (lines ! i) ignoreMarker \<or>
         (i > 0 \<and> Contains (lines ! (i - 1)) ignoreMarker)))"

definition declarations :: "string list \<Rightarrow> nat list" where
  "declarations lines = filter (isDeclaration lines) [0..<length lines]"

text \<open>The number of declarations above line \<open>i\<close>.\<close>

definition declRank :: "string list \<Rightarrow> nat \<Rightarrow> nat" where
  "declRank lines i = length (filter (isDeclaration lines) [0..<i])"

text \<open>The registry entry of the declaration at line \<open>i\<close> of a file.\<close>

definition declRef :: "string \<Rightarrow> string \<Rightarrow> string list \<Rightarrow> nat \<Rightarrow> conditionalDeclRef" where
  "declRef dir path lines i =
     \<lparr>File = drop (length dir + 1) path, Line = int i, Expr = TrimSpace (lines ! i)\<rparr>"

text \<open>
  \<^verbatim>\<open>fmt.Sprintf("%s\n%s# helmlint: %s", line, indentation, id)\<close> with an
  indentation of \<open>k\<close> spaces.
\<close>

definition markedLine :: "string \<Rightarrow> nat \<Rightarrow> string \<Rightarrow> string" where
  "markedLine line k tok = line @ [CHR 0x0A] @ Repeat_space k @ markerPrefix @ tok"

section \<open>The marker text and the suppression text\<close>

text \<open>
  A marker comment never contains the suppression text, so rewriting a line does
  not change whether it, or the line after it, counts as suppressed.
\<close>


lemma append_eq_append_cases:
  "xs @ ys = zs @ ts \<Longrightarrow>
   (\<exists>us. xs = zs @ us \<and> us @ ys = ts) \<or> (\<exists>us. xs @ us = zs \<and> ys = us @ ts)"
  by (auto simp: append_eq_append_conv2)

lemma sublist_replicate_space:
  "hd xs \<noteq> c \<Longrightarrow> xs \<noteq> [] \<Longrightarrow> sublist xs (replicate k c @ ys) = sublist xs ys"
proof (induction k)
  case 0 then show ?case by simp
next
  case (Suc k)
  from Suc.prems have "\<not> prefix xs (c # replicate k c @ ys)"
    by (cases xs) auto
  with Suc show ?case by (simp add: sublist_Cons_right)
qed

lemma ignoreMarker_not_in_marker:
  assumes "isUUIDString t"
  shows "\<not> sublist ignoreMarker (Repeat_space k @ markerPrefix @ t)"
proof -
  have h: "CHR ''h'' \<notin> set t"
  proof
    assume "CHR ''h'' \<in> set t"
    moreover from assms have "\<forall>c\<in>set t. c \<in> set ''0123456789abcdef-''"
      unfolding isUUIDString_def list_all_iff by blast
    ultimately have "CHR ''h'' \<in> set ''0123456789abcdef-''" by blast
    then show False by simp
  qed
  have "\<not> sublist ignoreMarker t"
  proof
    assume "sublist ignoreMarker t"
    then have "set ignoreMarker \<subseteq> set t" by (rule set_mono_sublist)
    with h show False by (simp add: ignoreMarker_def)
  qed
  then have "\<not> sublist ignoreMarker (markerPrefix @ t)"
    by (simp add: ignoreMarker_def markerPrefix_def sublist_Cons_right)
  then show ?thesis
    unfolding Repeat_space_def
    by (subst sublist_replicate_space) (simp_all add: ignoreMarker_def)
qed

lemma Contains_markedLine:
  assumes "isUUIDString t"
  shows "Contains (markedLine l k t) ignoreMarker = Contains l ignoreMarker"
proof -
  have nl: "CHR 0x0A \<notin> set ignoreMarker" by (simp add: ignoreMarker_def)
  let ?m = "Repeat_space k @ markerPrefix @ t"
  have "sublist ignoreMarker (l @ CHR 0x0A # ?m) = sublist ignoreMarker l"
  proof
    assume "sublist ignoreMarker (l @ CHR 0x0A # ?m)"
    then obtain ps ss where eq: "l @ CHR 0x0A # ?m = ps @ (ignoreMarker @ ss)"
      by (auto simp: sublist_def)
    from append_eq_append_cases [OF eq]
    show "sublist ignoreMarker l"
    proof (elim disjE exE conjE)
      fix us assume a: "l = ps @ us" "us @ CHR 0x0A # ?m = ignoreMarker @ ss"
      from append_eq_append_cases [OF a(2)]
      show ?thesis
      proof (elim disjE exE conjE)
        fix vs assume "us = ignoreMarker @ vs"
        with a(1) show ?thesis by (auto simp: sublist_def)
      next
        fix vs assume v: "us @ vs = ignoreMarker" "CHR 0x0A # ?m = vs @ ss"
        show ?thesis
        proof (cases vs)
          case Nil
          with v(1) a(1) have "l = ps @ ignoreMarker @ []" by simp
          then show ?thesis unfolding sublist_def by blast
        next
          case (Cons c vs')
          with v(2) have "c = CHR 0x0A" by simp
          with Cons have "CHR 0x0A \<in> set vs" by simp
          moreover from v(1) have "set ignoreMarker = set us \<union> set vs"
            by (metis set_append)
          ultimately show ?thesis using nl by blast
        qed
      qed
    next
      fix us assume b: "l @ us = ps" "CHR 0x0A # ?m = us @ ignoreMarker @ ss"
      show ?thesis
      proof (cases us)
        case Nil
        with b(2) have "CHR 0x0A # ?m = ignoreMarker @ ss" by simp
        then have "CHR 0x0A \<in> set ignoreMarker" by (simp add: ignoreMarker_def)
        with nl show ?thesis by blast
      next
        case (Cons c us')
        with b(2) have "?m = us' @ ignoreMarker @ ss" by simp
        then have "sublist ignoreMarker ?m" unfolding sublist_def by blast
        with ignoreMarker_not_in_marker [OF assms] show ?thesis by blast
      qed
    qed
  next
    assume "sublist ignoreMarker l"
    then show "sublist ignoreMarker (l @ CHR 0x0A # ?m)" by (simp add: sublist_append)
  qed
  then show ?thesis by (simp add: Contains_def markedLine_def)
qed

section \<open>The loop over the lines of a file\<close>


lemma forEach_append:
  "forEach f (xs @ ys) s =
     (case forEach f xs s of Inl e \<Rightarrow> Inl e | Inr s' \<Rightarrow> forEach f ys s')"
  by (induction xs arbitrary: s) (auto split: sum.splits)

lemma findIndentation_no_panic:
  assumes "i < length lines"
  shows "\<exists>k. findIndentation lines (int i) = Inr k"
proof -
  from assms have "Suc i \<le> length lines" by simp
  from findIndentation_loop_result [OF this] assms show ?thesis
    by (auto simp: findIndentation_def index_def)
qed

text \<open>
  The invariant of the loop over the lines of a file, after the indices below \<open>m\<close>:
  \<open>L\<close> are the lines read from the file, \<open>lines\<close> is the slice as the loop has
  rewritten it so far. A declaration below \<open>m\<close> carries its marker, indented as
  \<^const>\<open>findIndentation\<close> resolved it on the slice of that moment (the lines
  above it already rewritten, the others as read); every other line is as read.
\<close>

definition rewrittenUpTo ::
  "(nat \<Rightarrow> string) \<Rightarrow> nat \<Rightarrow> string list \<Rightarrow> string list \<Rightarrow> nat \<Rightarrow> bool" where
  "rewrittenUpTo uuid n L lines m =
     (length lines = length L \<and>
      (\<forall>i<length L.
         if i < m \<and> isDeclaration L i
         then (\<exists>k. findIndentation (take i lines @ drop i L) (int i) = Inr k \<and>
                   lines ! i = markedLine (L ! i) k (uuid (n + declRank L i)))
         else lines ! i = L ! i))"

text \<open>The registry after the entries of the declarations \<open>is\<close> of a file were stored.\<close>

definition registered ::
  "(nat \<Rightarrow> string) \<Rightarrow> string \<Rightarrow> string \<Rightarrow> nat \<Rightarrow> string list \<Rightarrow> nat list \<Rightarrow> registry \<Rightarrow> registry" where
  "registered uuid dir path n L is comments =
     fold (\<lambda>i. AList.update (uuid (n + declRank L i)) (declRef dir path L i)) is comments"

lemma rewrittenUpTo_at:
  assumes "rewrittenUpTo uuid n L lines m" "i < length L"
  shows "if i < m \<and> isDeclaration L i
         then (\<exists>k. findIndentation (take i lines @ drop i L) (int i) = Inr k \<and>
                   lines ! i = markedLine (L ! i) k (uuid (n + declRank L i)))
         else lines ! i = L ! i"
  using assms unfolding rewrittenUpTo_def by blast

lemma rewrittenUpTo_decl:
  assumes "rewrittenUpTo uuid n L lines m" "i < length L" "i < m" "isDeclaration L i"
  shows "\<exists>k. findIndentation (take i lines @ drop i L) (int i) = Inr k \<and>
                   lines ! i = markedLine (L ! i) k (uuid (n + declRank L i))"
  using rewrittenUpTo_at [OF assms(1,2)] assms(3,4) by simp

lemma rewrittenUpTo_other:
  assumes "rewrittenUpTo uuid n L lines m" "i < length L" "\<not> (i < m \<and> isDeclaration L i)"
  shows "lines ! i = L ! i"
  using rewrittenUpTo_at [OF assms(1,2)] assms(3) by simp

lemma declRank_Suc:
  "declRank L (Suc m) = (if isDeclaration L m then Suc (declRank L m) else declRank L m)"
  by (simp add: declRank_def)

lemma rewrittenUpTo_same_tail:
  assumes "rewrittenUpTo uuid n L lines m" "m \<le> length L"
  shows "take m lines @ drop m L = lines"
proof (rule nth_equalityI)
  from assms show "length (take m lines @ drop m L) = length lines"
    by (simp add: rewrittenUpTo_def)
next
  fix i assume "i < length (take m lines @ drop m L)"
  with assms have i: "i < length L" and len: "length lines = length L"
    by (simp_all add: rewrittenUpTo_def)
  show "(take m lines @ drop m L) ! i = lines ! i"
  proof (cases "i < m")
    case True
    with i len show ?thesis by (simp add: nth_append)
  next
    case False
    with assms i have "lines ! i = L ! i" by (simp add: rewrittenUpTo_other)
    with False i len assms(2) show ?thesis by (simp add: nth_append)
  qed
qed

lemma rewrittenUpTo_Contains:
  assumes r: "rewrittenUpTo uuid n L lines m" and i: "i < length L"
    and u: "\<forall>j. isUUIDString (uuid j)"
  shows "Contains (lines ! i) ignoreMarker = Contains (L ! i) ignoreMarker"
proof (cases "i < m \<and> isDeclaration L i")
  case True
  with r i obtain k where "lines ! i = markedLine (L ! i) k (uuid (n + declRank L i))"
    using rewrittenUpTo_decl by blast
  with u show ?thesis by (simp add: Contains_markedLine)
next
  case False
  with r i have "lines ! i = L ! i" using rewrittenUpTo_other by blast
  then show ?thesis by simp
qed

lemma injectLine_step:
  assumes r: "rewrittenUpTo uuid n L lines m" and m: "m < length L"
    and u: "\<forall>j. isUUIDString (uuid j)" and p: "length dir < length path"
  shows "\<exists>lines'. injectLine uuid dir path m
             (lines, registered uuid dir path n L (filter (isDeclaration L) [0..<m]) C,
              n + declRank L m) =
           Inr (lines', registered uuid dir path n L (filter (isDeclaration L) [0..<Suc m]) C,
                n + declRank L (Suc m)) \<and>
         rewrittenUpTo uuid n L lines' (Suc m)"
proof -
  from r have len: "length lines = length L" by (simp add: rewrittenUpTo_def)
  from r m have lm: "lines ! m = L ! m" by (simp add: rewrittenUpTo_other)
  have pm: "m > 0 \<Longrightarrow> Contains (lines ! (m - 1)) ignoreMarker = Contains (L ! (m - 1)) ignoreMarker"
    using rewrittenUpTo_Contains [OF r _ u, of "m - 1"] m by simp
  have decl: "isDeclaration lines m = isDeclaration L m"
    using lm pm by (auto simp: isDeclaration_def)
  show ?thesis
  proof (cases "isDeclaration L m")
    case False
    with decl have "\<not> isDeclaration lines m" by simp
    then have "injectLine uuid dir path m
             (lines, registered uuid dir path n L (filter (isDeclaration L) [0..<m]) C,
              n + declRank L m) =
           Inr (lines, registered uuid dir path n L (filter (isDeclaration L) [0..<m]) C,
              n + declRank L m)"
      by (auto simp: injectLine_def isDeclaration_def Let_def)
    moreover have "rewrittenUpTo uuid n L lines (Suc m)"
      unfolding rewrittenUpTo_def
    proof (intro conjI allI impI)
      show "length lines = length L" by (rule len)
    next
      fix i assume i: "i < length L"
      have "(i < Suc m \<and> isDeclaration L i) = (i < m \<and> isDeclaration L i)"
        using False by (auto simp: less_Suc_eq)
      with rewrittenUpTo_at [OF r i]
      show "if i < Suc m \<and> isDeclaration L i
         then \<exists>k. findIndentation (take i lines @ drop i L) (int i) = Inr k \<and>
                   lines ! i = markedLine (L ! i) k (uuid (n + declRank L i))
         else lines ! i = L ! i" by simp
    qed
    ultimately show ?thesis using False by (auto simp: declRank_Suc)
  next
    case True
    from m len obtain k where k: "findIndentation lines (int m) = Inr k"
      using findIndentation_no_panic [of m lines] by auto
    let ?lines' = "lines[m := markedLine (L ! m) k (uuid (n + declRank L m))]"
    from True decl have d: "isDeclaration lines m" by simp
    have "injectLine uuid dir path m
             (lines, registered uuid dir path n L (filter (isDeclaration L) [0..<m]) C,
              n + declRank L m) =
           Inr (?lines',
                AList.update (uuid (n + declRank L m)) (declRef dir path L m)
                  (registered uuid dir path n L (filter (isDeclaration L) [0..<m]) C),
                Suc (n + declRank L m))"
      using d k p lm unfolding injectLine_def isDeclaration_def
      by (simp add: Let_def markedLine_def declRef_def)
    moreover have "AList.update (uuid (n + declRank L m)) (declRef dir path L m)
                  (registered uuid dir path n L (filter (isDeclaration L) [0..<m]) C) =
        registered uuid dir path n L (filter (isDeclaration L) [0..<Suc m]) C"
      using True by (simp add: registered_def)
    moreover have "Suc (n + declRank L m) = n + declRank L (Suc m)"
      using True by (simp add: declRank_Suc)
    moreover have "rewrittenUpTo uuid n L ?lines' (Suc m)"
      unfolding rewrittenUpTo_def
    proof (intro conjI allI impI)
      show "length ?lines' = length L" using len by simp
    next
      fix i assume i: "i < length L"
      show "if i < Suc m \<and> isDeclaration L i
         then \<exists>k. findIndentation (take i ?lines' @ drop i L) (int i) = Inr k \<and>
                   ?lines' ! i = markedLine (L ! i) k (uuid (n + declRank L i))
         else ?lines' ! i = L ! i"
      proof (cases "i = m")
        case True
        have "take m ?lines' @ drop m L = lines"
          using rewrittenUpTo_same_tail [OF r] m by simp
        with True \<open>isDeclaration L m\<close> k m len show ?thesis by simp
      next
        case False
        note old = rewrittenUpTo_at [OF r i]
        show ?thesis
        proof (cases "i < m")
          case True
          then have "take i ?lines' = take i lines" by simp
          with old True False show ?thesis by simp
        next
          case False
          with \<open>i \<noteq> m\<close> old show ?thesis by simp
        qed
      qed
    qed
    ultimately show ?thesis by simp
  qed
qed

lemma injectLoop_prefix:
  assumes u: "\<forall>j. isUUIDString (uuid j)" and p: "length dir < length path"
  shows "m \<le> length L \<Longrightarrow>
     \<exists>lines. forEach (injectLine uuid dir path) [0..<m] (L, C, n) =
        Inr (lines, registered uuid dir path n L (filter (isDeclaration L) [0..<m]) C,
             n + declRank L m) \<and>
        rewrittenUpTo uuid n L lines m"
proof (induction m)
  case 0
  show ?case by (simp add: registered_def declRank_def rewrittenUpTo_def)
next
  case (Suc m)
  then obtain lines where
    l: "forEach (injectLine uuid dir path) [0..<m] (L, C, n) =
        Inr (lines, registered uuid dir path n L (filter (isDeclaration L) [0..<m]) C,
             n + declRank L m)" and r: "rewrittenUpTo uuid n L lines m" by auto
  from Suc.prems have m: "m < length L" by simp
  from injectLine_step [OF r m u p, of C] obtain lines' where
    s: "injectLine uuid dir path m
             (lines, registered uuid dir path n L (filter (isDeclaration L) [0..<m]) C,
              n + declRank L m) =
           Inr (lines', registered uuid dir path n L (filter (isDeclaration L) [0..<Suc m]) C,
                n + declRank L (Suc m))" and r': "rewrittenUpTo uuid n L lines' (Suc m)"
    by blast
  have "forEach (injectLine uuid dir path) [0..<Suc m] (L, C, n) =
     Inr (lines', registered uuid dir path n L (filter (isDeclaration L) [0..<Suc m]) C,
                n + declRank L (Suc m))"
    using l s by (simp add: forEach_append del: upt_Suc add: upt_Suc_append)
  with r' show ?case by blast
qed

section \<open>Splitting and joining lines\<close>


lemma Split_nl_nonempty: "Split_nl s \<noteq> []"
  by (induction s) (auto split: list.splits)

lemma Split_nl_append_nl: "Split_nl (a @ CHR 0x0A # b) = Split_nl a @ Split_nl b"
proof (induction a)
  case Nil
  show ?case by simp
next
  case (Cons c a)
  obtain l ls where "Split_nl a = l # ls"
    using Split_nl_nonempty [of a] by (cases "Split_nl a") auto
  with Cons show ?case by simp
qed

lemma Split_nl_no_newline: "CHR 0x0A \<notin> set l \<Longrightarrow> Split_nl l = [l]"
  by (induction l) auto

lemma Split_nl_lines_no_newline: "l \<in> set (Split_nl s) \<Longrightarrow> CHR 0x0A \<notin> set l"
proof (induction s arbitrary: l)
  case Nil
  then show ?case by simp
next
  case (Cons c s)
  obtain x xs where x: "Split_nl s = x # xs"
    using Split_nl_nonempty [of s] by (cases "Split_nl s") auto
  show ?case
  proof (cases "c = CHR 0x0A")
    case True
    with Cons show ?thesis by auto
  next
    case False
    with Cons.prems x have "l = c # x \<or> l \<in> set xs" by simp
    then show ?thesis
    proof
      assume "l = c # x"
      moreover have "CHR 0x0A \<notin> set x" using Cons.IH [of x] x by simp
      ultimately show ?thesis using False by simp
    next
      assume "l \<in> set xs"
      with x have "l \<in> set (Split_nl s)" by simp
      then show ?thesis by (rule Cons.IH)
    qed
  qed
qed

lemma Join_nl_Cons: "ls \<noteq> [] \<Longrightarrow> Join_nl (l # ls) = l @ CHR 0x0A # Join_nl ls"
  by (cases ls) simp_all

lemma Split_nl_Join_nl: "ls \<noteq> [] \<Longrightarrow> Split_nl (Join_nl ls) = concat (map Split_nl ls)"
proof (induction ls)
  case Nil
  then show ?case by simp
next
  case (Cons l ls)
  show ?case
  proof (cases "ls = []")
    case True
    then show ?thesis by simp
  next
    case False
    with Cons show ?thesis by (simp add: Join_nl_Cons Split_nl_append_nl)
  qed
qed

lemma Join_nl_Split_nl: "Join_nl (Split_nl s) = s"
proof (induction s)
  case Nil
  show ?case by simp
next
  case (Cons c s)
  obtain x xs where x: "Split_nl s = x # xs"
    using Split_nl_nonempty [of s] by (cases "Split_nl s") auto
  show ?case
  proof (cases "c = CHR 0x0A")
    case True
    with Cons show ?thesis by (simp add: Join_nl_Cons Split_nl_nonempty)
  next
    case False
    with Cons x show ?thesis by (cases xs) auto
  qed
qed

lemma isUUIDString_no_newline: "isUUIDString t \<Longrightarrow> CHR 0x0A \<notin> set t"
proof
  assume "isUUIDString t" "CHR 0x0A \<in> set t"
  then have "CHR 0x0A \<in> set ''0123456789abcdef-''"
    unfolding isUUIDString_def list_all_iff by blast
  then show False by simp
qed

lemma Split_nl_markedLine:
  assumes "CHR 0x0A \<notin> set l" "isUUIDString t"
  shows "Split_nl (markedLine l k t) = [l, Repeat_space k @ markerPrefix @ t]"
proof -
  have "CHR 0x0A \<notin> set (Repeat_space k @ markerPrefix @ t)"
    using isUUIDString_no_newline [OF assms(2)]
    by (auto simp: Repeat_space_def markerPrefix_def)
  with assms(1) show ?thesis
    by (simp add: markedLine_def Split_nl_append_nl Split_nl_no_newline)
qed

section \<open>Rewriting one file\<close>


lemma find_map_update:
  "find (\<lambda>e. Path e = q) (map (\<lambda>e. if Path e = p then e\<lparr>Content := d\<rparr> else e) fs) =
   map_option (\<lambda>e. if Path e = p then e\<lparr>Content := d\<rparr> else e) (find (\<lambda>e. Path e = q) fs)"
  by (induction fs) auto

lemma ReadFile_Inr:
  "ReadFile p fs = Inr c \<Longrightarrow>
   \<exists>e. find (\<lambda>e. Path e = p) fs = Some e \<and> \<not> IsDir e \<and> Content e = c \<and> Path e = p"
  by (auto simp: ReadFile_def find_Some_iff split: option.splits if_splits)

lemma WriteFile_existing:
  "ReadFile p fs = Inr c \<Longrightarrow>
   WriteFile p d fs = Inr (map (\<lambda>e. if Path e = p then e\<lparr>Content := d\<rparr> else e) fs)"
  by (auto simp: WriteFile_def dest!: ReadFile_Inr)

lemma ReadFile_written:
  "ReadFile p fs = Inr c \<Longrightarrow>
   ReadFile p (map (\<lambda>e. if Path e = p then e\<lparr>Content := d\<rparr> else e) fs) = Inr d"
proof -
  assume "ReadFile p fs = Inr c"
  from ReadFile_Inr [OF this] obtain e where
    "find (\<lambda>e. Path e = p) fs = Some e" "\<not> IsDir e" "Path e = p" by blast
  then show ?thesis by (simp add: ReadFile_def find_map_update)
qed

lemma ReadFile_other:
  "q \<noteq> p \<Longrightarrow>
   ReadFile q (map (\<lambda>e. if Path e = p then e\<lparr>Content := d\<rparr> else e) fs) = ReadFile q fs"
proof (cases "find (\<lambda>e. Path e = q) fs")
  case None
  then show ?thesis by (simp add: ReadFile_def find_map_update)
next
  case (Some e)
  then have "Path e = q" by (auto simp: find_Some_iff)
  moreover assume "q \<noteq> p"
  ultimately show ?thesis using Some by (simp add: ReadFile_def find_map_update)
qed

lemma declRank_length: "declRank L (length L) = length (declarations L)"
  by (simp add: declRank_def declarations_def)

lemma injectLoop_file:
  assumes u: "\<forall>j. isUUIDString (uuid j)" and p: "length dir < length path"
  shows "\<exists>lines. forEach (injectLine uuid dir path) [0..<length L] (L, C, n) =
        Inr (lines, registered uuid dir path n L (declarations L) C,
             n + length (declarations L)) \<and>
        rewrittenUpTo uuid n L lines (length L)"
  using injectLoop_prefix [OF u p, of "length L" L C n]
  by (simp add: declRank_length declarations_def)

text \<open>
  The indentation \<^const>\<open>findIndentation\<close> resolves for line \<open>i\<close> on the slice the
  loop holds when it reaches \<open>i\<close>: the lines above \<open>i\<close> as rewritten, the others as
  read.
\<close>

definition resolvedAt :: "string list \<Rightarrow> string list \<Rightarrow> nat \<Rightarrow> nat" where
  "resolvedAt L lines i =
     (case findIndentation (take i lines @ drop i L) (int i) of Inr k \<Rightarrow> k | Inl e \<Rightarrow> 0)"

lemma rewrittenUpTo_map:
  assumes r: "rewrittenUpTo uuid n L lines (length L)"
  shows "lines = map (\<lambda>i. if isDeclaration L i
                          then markedLine (L ! i) (resolvedAt L lines i) (uuid (n + declRank L i))
                          else L ! i) [0..<length L]"
proof (rule nth_equalityI)
  from r show "length lines = length (map (\<lambda>i. if isDeclaration L i
                          then markedLine (L ! i) (resolvedAt L lines i) (uuid (n + declRank L i))
                          else L ! i) [0..<length L])" by (simp add: rewrittenUpTo_def)
next
  fix i assume "i < length lines"
  with r have i: "i < length L" by (simp add: rewrittenUpTo_def)
  show "lines ! i = map (\<lambda>i. if isDeclaration L i
                          then markedLine (L ! i) (resolvedAt L lines i) (uuid (n + declRank L i))
                          else L ! i) [0..<length L] ! i"
  proof (cases "isDeclaration L i")
    case True
    from rewrittenUpTo_decl [OF r i i True] obtain k where
      "findIndentation (take i lines @ drop i L) (int i) = Inr k"
      "lines ! i = markedLine (L ! i) k (uuid (n + declRank L i))" by blast
    with True i show ?thesis by (simp add: resolvedAt_def)
  next
    case False
    with rewrittenUpTo_other [OF r i] i show ?thesis by simp
  qed
qed

text \<open>
  The rewriting of a file. For a readable file with lines \<open>L\<close>, the goroutine of
  \<^verbatim>\<open>injectComments\<close> succeeds and writes the file back, and no other: the
  slice it joins has, at the index of every declaration, the original line, a
  newline, the resolved indentation and the marker comment with the next token, and
  at every other index the original line. The indentation is the one
  \<^const>\<open>findIndentation\<close> resolves on the slice of that moment, whose lines above
  are already rewritten. Split again, the new content is the original line list with
  exactly one marker line after each declaration, in the original order. The tokens
  come from \<^verbatim>\<open>uuid.NewString\<close>, and the path lies below the walked directory.
\<close>

lemma injectFile_rewrites:
  fixes content :: string
  defines "L \<equiv> Split_nl content"
  assumes rd: "ReadFile path fs = Inr content"
    and u: "\<forall>j. isUUIDString (uuid j)" and p: "length dir < length path"
  shows "\<exists>lines' comments' ind.
     injectFile uuid dir path (fs, comments, n) =
       Inr (map (\<lambda>e. if Path e = path then e\<lparr>Content := Join_nl lines'\<rparr> else e) fs,
            comments', n + length (declarations L)) \<and>
     (\<forall>i<length L. isDeclaration L i \<longrightarrow>
        findIndentation (take i lines' @ drop i L) (int i) = Inr (ind i)) \<and>
     lines' = map (\<lambda>i. if isDeclaration L i
                        then markedLine (L ! i) (ind i) (uuid (n + declRank L i))
                        else L ! i) [0..<length L] \<and>
     Split_nl (Join_nl lines') =
       concat (map (\<lambda>i. if isDeclaration L i
                         then [L ! i, Repeat_space (ind i) @ markerPrefix @ uuid (n + declRank L i)]
                         else [L ! i]) [0..<length L])"
proof -
  from injectLoop_file [OF u p, of L comments n] obtain lines where
    loop: "forEach (injectLine uuid dir path) [0..<length L] (L, comments, n) =
        Inr (lines, registered uuid dir path n L (declarations L) comments,
             n + length (declarations L))"
    and r: "rewrittenUpTo uuid n L lines (length L)" by blast
  let ?ind = "resolvedAt L lines"
  have inj: "injectFile uuid dir path (fs, comments, n) =
       Inr (map (\<lambda>e. if Path e = path then e\<lparr>Content := Join_nl lines\<rparr> else e) fs,
            registered uuid dir path n L (declarations L) comments,
            n + length (declarations L))"
    using rd loop WriteFile_existing [OF rd]
    by (simp add: injectFile_def L_def Let_def)
  have res: "\<forall>i<length L. isDeclaration L i \<longrightarrow>
        findIndentation (take i lines @ drop i L) (int i) = Inr (?ind i)"
  proof (intro allI impI)
    fix i assume i: "i < length L" and d: "isDeclaration L i"
    from rewrittenUpTo_decl [OF r i i d] show
      "findIndentation (take i lines @ drop i L) (int i) = Inr (?ind i)"
      by (auto simp: resolvedAt_def)
  qed
  note m = rewrittenUpTo_map [OF r]
  have ne: "lines \<noteq> []"
    using r Split_nl_nonempty [of content] by (auto simp: rewrittenUpTo_def L_def)
  have nl: "CHR 0x0A \<notin> set (L ! i)" if "i < length L" for i
    using that Split_nl_lines_no_newline [of "L ! i" content] by (simp add: L_def)
  have "concat (map Split_nl lines) =
       concat (map (\<lambda>i. if isDeclaration L i
                         then [L ! i, Repeat_space (?ind i) @ markerPrefix @ uuid (n + declRank L i)]
                         else [L ! i]) [0..<length L])"
  proof -
    have "map Split_nl lines =
       map (\<lambda>i. if isDeclaration L i
                         then [L ! i, Repeat_space (?ind i) @ markerPrefix @ uuid (n + declRank L i)]
                         else [L ! i]) [0..<length L]"
      apply (subst m)
      apply (simp only: map_map)
      apply (rule map_cong [OF refl])
      using nl u by (auto simp: Split_nl_markedLine Split_nl_no_newline)
    then show ?thesis by simp
  qed
  with ne have sp: "Split_nl (Join_nl lines) =
       concat (map (\<lambda>i. if isDeclaration L i
                         then [L ! i, Repeat_space (?ind i) @ markerPrefix @ uuid (n + declRank L i)]
                         else [L ! i]) [0..<length L])"
    by (simp add: Split_nl_Join_nl)
  from inj res m sp show ?thesis by blast
qed

section \<open>An example chart\<close>

definition exampleUUID :: "nat \<Rightarrow> string" where
  "exampleUUID j = ''00000000-0000-4000-8000-00000000000'' @ [''0123456789abcdef'' ! (j mod 16)]"

lemma exampleUUID_isUUIDString: "isUUIDString (exampleUUID j)"
proof -
  define hexd where "hexd = set ''0123456789abcdef-''"
  define c where "c = ''0123456789abcdef'' ! (j mod 16)"
  have "j mod 16 < length ''0123456789abcdef''" by simp
  then have "c \<in> set ''0123456789abcdef''"
    unfolding c_def by (rule nth_mem)
  moreover have "set ''0123456789abcdef'' \<subseteq> hexd"
    unfolding hexd_def by (rule set_mono_prefix) simp
  ultimately have c: "c \<in> hexd" by blast
  have "list_all (\<lambda>c. c \<in> hexd) ''00000000-0000-4000-8000-00000000000''"
    unfolding hexd_def by simp
  with c have "list_all (\<lambda>c. c \<in> hexd) (''00000000-0000-4000-8000-00000000000'' @ [c])"
    unfolding list_all_append by simp
  then show ?thesis
    unfolding isUUIDString_def exampleUUID_def hexd_def c_def by simp
qed

definition exampleContent :: string where
  "exampleContent =
     ''data: |'' @ [CHR 0x0A] @ ''  {{ if .Values.a }}'' @ [CHR 0x0A] @ ''  x'' @ [CHR 0x0A] @
     ''  {{ end }}'' @ [CHR 0x0A] @ ''{{- if .Values.b }}'' @ [CHR 0x0A] @ ''b: 1'' @ [CHR 0x0A] @
     ''{{- end }}'' @ [CHR 0x0A]"

definition exampleFS :: filesystem where
  "exampleFS =
     [\<lparr>Path = ''/chart'', IsDir = True, Content = []\<rparr>,
      \<lparr>Path = ''/chart/templates'', IsDir = True, Content = []\<rparr>,
      \<lparr>Path = ''/chart/templates/cm.yaml'', IsDir = False, Content = exampleContent\<rparr>,
      \<lparr>Path = ''/chart/templates/helpers.tpl'', IsDir = False, Content = ''{{ if .x }}''\<rparr>]"

lemma injectFile_rewrites_example:
  "ReadFile ''/chart/templates/cm.yaml'' exampleFS = Inr exampleContent
   \<and> (\<forall>j. isUUIDString (exampleUUID j))
   \<and> length ''/chart'' < length ''/chart/templates/cm.yaml''
   \<and> (\<exists>lines' comments'.
        injectFile exampleUUID ''/chart'' ''/chart/templates/cm.yaml'' (exampleFS, [], 0) =
          Inr (map (\<lambda>e. if Path e = ''/chart/templates/cm.yaml''
                          then e\<lparr>Content := Join_nl lines'\<rparr> else e) exampleFS,
               comments', 2))"
proof -
  have rd: "ReadFile ''/chart/templates/cm.yaml'' exampleFS = Inr exampleContent"
    by (simp add: ReadFile_def exampleFS_def)
  have u: "\<forall>j. isUUIDString (exampleUUID j)"
    by (simp add: exampleUUID_isUUIDString)
  have p: "length ''/chart'' < length ''/chart/templates/cm.yaml''" by simp
  have d: "length (declarations (Split_nl exampleContent)) = 2" by code_simp
  from injectFile_rewrites [OF rd u p, of "[]" 0] obtain lines' comments' where
    "injectFile exampleUUID ''/chart'' ''/chart/templates/cm.yaml'' (exampleFS, [], 0) =
          Inr (map (\<lambda>e. if Path e = ''/chart/templates/cm.yaml''
                          then e\<lparr>Content := Join_nl lines'\<rparr> else e) exampleFS,
               comments', 0 + length (declarations (Split_nl exampleContent)))"
    by blast
  with d have "injectFile exampleUUID ''/chart'' ''/chart/templates/cm.yaml'' (exampleFS, [], 0) =
          Inr (map (\<lambda>e. if Path e = ''/chart/templates/cm.yaml''
                          then e\<lparr>Content := Join_nl lines'\<rparr> else e) exampleFS,
               comments', 2)" by simp
  then have "\<exists>lines' comments'.
        injectFile exampleUUID ''/chart'' ''/chart/templates/cm.yaml'' (exampleFS, [], 0) =
          Inr (map (\<lambda>e. if Path e = ''/chart/templates/cm.yaml''
                          then e\<lparr>Content := Join_nl lines'\<rparr> else e) exampleFS,
               comments', 2)" by blast
  with rd u p show ?thesis by blast
qed

text \<open>
  Claim C2. Running the loop of \<^verbatim>\<open>injectComments\<close> over the lines \<open>L\<close> of a
  file rewrites line \<open>i\<close> (and then to the line with its marker) if and only if
  the line has the if-opening tag, does not contain the suppression text, and,
  when it is not the first line, the line before it does not contain the
  suppression text either.
\<close>

theorem declaration_detected_iff:
  assumes u: "\<forall>j. isUUIDString (uuid j)" and p: "length dir < length path"
    and i: "i < length L"
  shows "\<exists>lines' comments' n'.
     forEach (injectLine uuid dir path) [0..<length L] (L, comments, n) =
       Inr (lines', comments', n') \<and>
     (lines' ! i \<noteq> L ! i) =
       (ifOpeningTag (L ! i) \<and> \<not> Contains (L ! i) ignoreMarker \<and>
        (i > 0 \<longrightarrow> \<not> Contains (L ! (i - 1)) ignoreMarker)) \<and>
     (lines' ! i \<noteq> L ! i \<longrightarrow>
        (\<exists>k. lines' ! i = markedLine (L ! i) k (uuid (n + declRank L i))))"
proof -
  from injectLoop_file [OF u p, of L comments n] obtain lines where
    loop: "forEach (injectLine uuid dir path) [0..<length L] (L, comments, n) =
        Inr (lines, registered uuid dir path n L (declarations L) comments,
             n + length (declarations L))"
    and r: "rewrittenUpTo uuid n L lines (length L)" by blast
  have spec: "isDeclaration L i =
       (ifOpeningTag (L ! i) \<and> \<not> Contains (L ! i) ignoreMarker \<and>
        (i > 0 \<longrightarrow> \<not> Contains (L ! (i - 1)) ignoreMarker))"
    by (auto simp: isDeclaration_def MatchString_ifOpeningTag)
  have ne: "markedLine l k t \<noteq> l" for l k t
    by (simp add: markedLine_def)
  show ?thesis
  proof (cases "isDeclaration L i")
    case True
    from rewrittenUpTo_decl [OF r i i True] obtain k where
      k: "lines ! i = markedLine (L ! i) k (uuid (n + declRank L i))" by blast
    with ne have "lines ! i \<noteq> L ! i" by simp
    with loop k True spec show ?thesis by auto
  next
    case False
    with rewrittenUpTo_other [OF r i] have "lines ! i = L ! i" by simp
    with loop False spec show ?thesis by auto
  qed
qed

theorem declaration_detected_iff_witness:
  "(\<forall>j. isUUIDString (exampleUUID j))
   \<and> length ''/chart'' < length ''/chart/templates/cm.yaml''
   \<and> (1::nat) < length (Split_nl exampleContent)
   \<and> ifOpeningTag (Split_nl exampleContent ! 1)
   \<and> (\<exists>lines' comments' n'.
        forEach (injectLine exampleUUID ''/chart'' ''/chart/templates/cm.yaml'')
          [0..<length (Split_nl exampleContent)] (Split_nl exampleContent, [], 0) =
          Inr (lines', comments', n') \<and>
        lines' ! 1 \<noteq> Split_nl exampleContent ! 1)"
proof -
  let ?L = "Split_nl exampleContent"
  have u: "\<forall>j. isUUIDString (exampleUUID j)"
    by (simp add: exampleUUID_isUUIDString)
  have p: "length ''/chart'' < length ''/chart/templates/cm.yaml''" by simp
  have i: "(1::nat) < length ?L" by code_simp
  have m: "conditionalRegex_MatchString (?L ! 1)" by code_simp
  then have t: "ifOpeningTag (?L ! 1)" by (simp add: MatchString_ifOpeningTag)
  have c1: "\<not> Contains (?L ! 1) ignoreMarker" by code_simp
  have c0: "\<not> Contains (?L ! (1 - 1)) ignoreMarker" by code_simp
  from declaration_detected_iff [OF u p i, of "[]" 0] t c1 c0
  have "\<exists>lines' comments' n'.
        forEach (injectLine exampleUUID ''/chart'' ''/chart/templates/cm.yaml'')
          [0..<length ?L] (?L, [], 0) = Inr (lines', comments', n') \<and>
        lines' ! 1 \<noteq> ?L ! 1"
    by blast
  with u p i t show ?thesis by blast
qed

section \<open>The test handle\<close>

text \<open>
  The interface \<^verbatim>\<open>T\<close> is modelled by what it accumulates: the messages of
  \<^verbatim>\<open>t.Errorf\<close> and of \<^verbatim>\<open>t.Logf\<close>, in the order of the calls. Calls made
  from different goroutines arrive in an order the scheduler chooses; the model
  takes the order in which the goroutines were started.
\<close>

record T =
  Errors :: "string list"
  Logs :: "string list"

definition Errorf :: "T \<Rightarrow> string \<Rightarrow> T" where
  "Errorf t msg = t\<lparr>Errors := Errors t @ [msg]\<rparr>"

definition Logf :: "T \<Rightarrow> string \<Rightarrow> T" where
  "Logf t msg = t\<lparr>Logs := Logs t @ [msg]\<rparr>"

text \<open>The verb \<^verbatim>\<open>%d\<close> of package \<^verbatim>\<open>fmt\<close> for an \<^verbatim>\<open>int\<close>.\<close>

function decimal :: "nat \<Rightarrow> string" where
  "decimal n =
     (if n < 10 then [''0123456789'' ! n]
      else decimal (n div 10) @ [''0123456789'' ! (n mod 10)])"
  by pat_completeness auto
termination
  by (relation "measure id") auto

declare decimal.simps [simp del]

definition formatInt :: "int \<Rightarrow> string" where
  "formatInt i = (if i < 0 then CHR ''-'' # decimal (nat (- i)) else decimal (nat i))"

section \<open>The coverage reconciler, verification mode\<close>

text \<open>
  \<^verbatim>\<open>fmt.Sprintf("Branch was not found in the rendered chart output:\n  (%s:%d): %s",
  def.File, def.Line, def.Expr)\<close>.
\<close>

definition branchNotFound :: "conditionalDeclRef \<Rightarrow> string" where
  "branchNotFound d =
     ''Branch was not found in the rendered chart output:'' @ [CHR 0x0A] @ ''  ('' @
     File d @ '':'' @ formatInt (Line d) @ ''): '' @ Expr d"

text \<open>
  \<^verbatim>\<open>verifyCoverage\<close>: one goroutine per entry of the registry;
  \<^verbatim>\<open>slices.Contains(seenIDs, id)\<close> is membership in the list.
\<close>

fun verifyCoverage :: "T \<Rightarrow> registry \<Rightarrow> string list \<Rightarrow> T" where
  "verifyCoverage t [] seenIDs = t"
| "verifyCoverage t ((tok, d) # ids) seenIDs =
     (if tok \<in> set seenIDs then verifyCoverage t ids seenIDs
      else verifyCoverage (Errorf t (branchNotFound d)) ids seenIDs)"

text \<open>The entries of the registry whose token is not among the surviving ones.\<close>

definition uncovered :: "registry \<Rightarrow> string list \<Rightarrow> registry" where
  "uncovered ids seenIDs = filter (\<lambda>(tok, d). tok \<notin> set seenIDs) ids"

lemma verifyCoverage_Errors:
  "Errors (verifyCoverage t ids seenIDs) =
     Errors t @ map (\<lambda>(tok, d). branchNotFound d) (uncovered ids seenIDs)"
  by (induction t ids seenIDs rule: verifyCoverage.induct)
     (simp_all add: uncovered_def Errorf_def)

lemma verifyCoverage_Logs: "Logs (verifyCoverage t ids seenIDs) = Logs t"
  by (induction t ids seenIDs rule: verifyCoverage.induct)
     (simp_all add: Errorf_def)

text \<open>
  Claim C5. \<^verbatim>\<open>verifyCoverage\<close> adds to the failures of the test exactly one
  message per entry of the registry whose token is not among the surviving ones,
  for all of them and for no other entry. The message starts with
  \<open>Branch was not found in the rendered chart output\<close> and names the file, the line
  and the text of the declaration.
\<close>

theorem verifyCoverage_reports:
  "Errors (verifyCoverage t ids seenIDs) =
     Errors t @ map (\<lambda>(tok, d). branchNotFound d) (uncovered ids seenIDs)
   \<and> mset (uncovered ids seenIDs) = filter_mset (\<lambda>(tok, d). tok \<notin> set seenIDs) (mset ids)
   \<and> HasPrefix (branchNotFound d) ''Branch was not found in the rendered chart output''
   \<and> Contains (branchNotFound d) (''('' @ File d @ '':'' @ formatInt (Line d) @ ''): '' @ Expr d)"
proof (intro conjI)
  show "Errors (verifyCoverage t ids seenIDs) =
     Errors t @ map (\<lambda>(tok, d). branchNotFound d) (uncovered ids seenIDs)"
    by (rule verifyCoverage_Errors)
  show "mset (uncovered ids seenIDs) = filter_mset (\<lambda>(tok, d). tok \<notin> set seenIDs) (mset ids)"
    by (simp add: uncovered_def)
  show "HasPrefix (branchNotFound d) ''Branch was not found in the rendered chart output''"
    by (simp add: HasPrefix_def branchNotFound_def)
  have "branchNotFound d = (''Branch was not found in the rendered chart output:'' @ [CHR 0x0A] @ ''  '') @
     (''('' @ File d @ '':'' @ formatInt (Line d) @ ''): '' @ Expr d) @ []"
    by (simp add: branchNotFound_def)
  then show "Contains (branchNotFound d) (''('' @ File d @ '':'' @ formatInt (Line d) @ ''): '' @ Expr d)"
    unfolding Contains_def sublist_def by blast
qed

section \<open>The marker scanner\<close>

text \<open>
  \<^verbatim>\<open>bufio.Scanner\<close> with the default split function \<^verbatim>\<open>ScanLines\<close>: the
  tokens are the lines of the content, each without its newline and without one
  trailing carriage return; an empty piece after the last newline is no token. A
  line that does not fit the buffer of \<^verbatim>\<open>bufio.MaxScanTokenSize\<close> bytes together
  with its newline stops the scan (\<^verbatim>\<open>Scan\<close> returns false with
  \<^verbatim>\<open>ErrTooLong\<close>, which \<^verbatim>\<open>discoverComments\<close> does not look at).
\<close>

definition MaxScanTokenSize :: int where
  "MaxScanTokenSize = 64 * 1024"

definition dropCR :: "string \<Rightarrow> string" where
  "dropCR l = (if l \<noteq> [] \<and> last l = CHR 0x0D then butlast l else l)"

definition textLines :: "string \<Rightarrow> string list" where
  "textLines content =
     (let ps = Split_nl content in if last ps = [] then butlast ps else ps)"

definition Scan :: "string \<Rightarrow> string list" where
  "Scan content =
     map dropCR (takeWhile (\<lambda>l. int (length l) < MaxScanTokenSize) (textLines content))"

text \<open>The loop \<^verbatim>\<open>for r.Scan() { ... }\<close> of one file.\<close>

fun discoverLines :: "string list \<Rightarrow> string list" where
  "discoverLines [] = []"
| "discoverLines (line # rest) =
     (if Contains line markerPrefix
      then TrimPrefix (TrimSpace line) markerPrefix # discoverLines rest
      else discoverLines rest)"

text \<open>
  \<^verbatim>\<open>discoverComments\<close>: the tokens found and the error of the first file that
  could not be opened, if any. The goroutines append to \<open>ids\<close> under a lock;
  the model appends in the order of the walk.
\<close>

fun discoverWalk :: "filesystem \<Rightarrow> entry list \<Rightarrow> string list \<times> error option" where
  "discoverWalk fs [] = ([], None)"
| "discoverWalk fs (e # es) =
     (if IsDir e \<or> \<not> HasSuffix (Name e) ''.yaml'' then discoverWalk fs es
      else (case ReadFile (Path e) fs of
              Inl err \<Rightarrow> (case discoverWalk fs es of
                            (ids, None) \<Rightarrow> (ids, Some err)
                          | (ids, Some err') \<Rightarrow> (ids, Some err))
            | Inr content \<Rightarrow>
                (case discoverWalk fs es of
                   (ids, err) \<Rightarrow> (discoverLines (Scan content) @ ids, err))))"

definition discoverComments :: "string \<Rightarrow> filesystem \<Rightarrow> string list \<times> error option" where
  "discoverComments dir fs =
     (case Walk dir fs of
        Inl e \<Rightarrow> ([], Some e)
      | Inr es \<Rightarrow> discoverWalk fs es)"

section \<open>Properties of the marker scanner\<close>


lemma TrimLeftSpace_suffix: "suffix (TrimLeftSpace s) s"
proof (induction s rule: TrimLeftSpace.induct)
  case (1 s)
  show ?case
  proof (cases "leadingSpaceRune s")
    case None
    then show ?thesis by (subst TrimLeftSpace.simps) simp
  next
    case (Some e)
    with 1 have "suffix (TrimLeftSpace (drop (length e) s)) (drop (length e) s)" by simp
    then have "suffix (TrimLeftSpace (drop (length e) s)) s"
      using suffix_drop suffix_order.trans by blast
    with Some show ?thesis by (subst TrimLeftSpace.simps) simp
  qed
qed

lemma TrimRightSpace_prefix: "prefix (TrimRightSpace s) s"
proof (induction s rule: TrimRightSpace.induct)
  case (1 s)
  show ?case
  proof (cases "trailingSpaceRune s")
    case None
    then show ?thesis by (subst TrimRightSpace.simps) simp
  next
    case (Some e)
    with 1 have "prefix (TrimRightSpace (take (length s - length e) s)) (take (length s - length e) s)"
      by simp
    then have "prefix (TrimRightSpace (take (length s - length e) s)) s"
      using take_is_prefix prefix_order.trans by blast
    with Some show ?thesis by (subst TrimRightSpace.simps) simp
  qed
qed

lemma TrimSpace_sublist: "sublist (TrimSpace s) s"
proof -
  have "sublist (TrimRightSpace (TrimLeftSpace s)) (TrimLeftSpace s)"
    using TrimRightSpace_prefix by (rule prefix_imp_sublist)
  moreover have "sublist (TrimLeftSpace s) s"
    using TrimLeftSpace_suffix by (rule suffix_imp_sublist)
  ultimately show ?thesis unfolding TrimSpace_def by (rule sublist_order.order.trans)
qed

lemma discoverLines_set:
  "set (discoverLines ls) =
     {TrimPrefix (TrimSpace l) markerPrefix | l. l \<in> set ls \<and> Contains l markerPrefix}"
  by (induction ls) auto

lemma find_distinct_Path:
  "distinct (map Path fs) \<Longrightarrow> e \<in> set fs \<Longrightarrow> find (\<lambda>x. Path x = Path e) fs = Some e"
  by (induction fs) auto

lemma ReadFile_entry:
  "distinct (map Path fs) \<Longrightarrow> e \<in> set fs \<Longrightarrow> \<not> IsDir e \<Longrightarrow>
   ReadFile (Path e) fs = Inr (Content e)"
  by (simp add: ReadFile_def find_distinct_Path)

lemma isYamlFile_iff: "isYamlFile e = (\<not> IsDir e \<and> HasSuffix (Name e) ''.yaml'')"
  by (simp add: isYamlFile_def)

lemma discoverWalk_set:
  assumes "distinct (map Path fs)"
  shows "set es \<subseteq> set fs \<Longrightarrow>
     set (fst (discoverWalk fs es)) =
       {TrimPrefix (TrimSpace l) markerPrefix | l e.
          e \<in> set es \<and> isYamlFile e \<and> l \<in> set (Scan (Content e)) \<and> Contains l markerPrefix}"
proof (induction es)
  case Nil
  show ?case by simp
next
  case (Cons e es)
  then have IH: "set (fst (discoverWalk fs es)) =
       {TrimPrefix (TrimSpace l) markerPrefix | l e.
          e \<in> set es \<and> isYamlFile e \<and> l \<in> set (Scan (Content e)) \<and> Contains l markerPrefix}"
    and e: "e \<in> set fs" by simp_all
  show ?case
  proof (cases "isYamlFile e")
    case False
    then have "discoverWalk fs (e # es) = discoverWalk fs es"
      by (simp add: isYamlFile_def)
    with IH False show ?thesis by auto
  next
    case True
    then have rd: "ReadFile (Path e) fs = Inr (Content e)"
      using ReadFile_entry [OF assms e] by (simp add: isYamlFile_iff)
    obtain ids err where w: "discoverWalk fs es = (ids, err)" by (cases "discoverWalk fs es")
    with rd True have "fst (discoverWalk fs (e # es)) = discoverLines (Scan (Content e)) @ ids"
      by (simp add: isYamlFile_iff)
    with w IH True show ?thesis by (auto simp: discoverLines_set)
  qed
qed

lemma Walk_subset: "set (walkEntries dir fs) \<subseteq> set fs"
  by (auto simp: walkEntries_def)

text \<open>The walk of a directory that exists.\<close>

lemma Walk_dir:
  assumes d: "distinct (map Path fs)" and r: "\<exists>e\<in>set fs. Path e = dir \<and> IsDir e"
  shows "Walk dir fs = Inr (walkEntries dir fs)"
    and "\<forall>e\<in>set fs. Path e = dir \<longrightarrow> IsDir e"
proof -
  from r obtain e where e: "e \<in> set fs" "Path e = dir" "IsDir e" by blast
  from find_distinct_Path [OF d e(1)] e(2) have f: "find (\<lambda>x. Path x = dir) fs = Some e" by simp
  with e(3) show "Walk dir fs = Inr (walkEntries dir fs)" by (simp add: Walk_def)
  show "\<forall>e\<in>set fs. Path e = dir \<longrightarrow> IsDir e"
  proof (intro ballI impI)
    fix x assume "x \<in> set fs" "Path x = dir"
    with find_distinct_Path [OF d, of x] f have "x = e" by simp
    with e(3) show "IsDir x" by simp
  qed
qed

lemma takeWhile_nth_mem:
  "i < length xs \<Longrightarrow> \<forall>j\<le>i. P (xs ! j) \<Longrightarrow> xs ! i \<in> set (takeWhile P xs)"
proof (induction xs arbitrary: i)
  case Nil
  then show ?case by simp
next
  case (Cons x xs)
  from Cons.prems(2) have "P ((x # xs) ! 0)" by blast
  then have x: "P x" by simp
  show ?case
  proof (cases i)
    case 0
    with x show ?thesis by simp
  next
    case (Suc k)
    with Cons.prems have "k < length xs" by simp
    moreover have "\<forall>j\<le>k. P (xs ! j)"
    proof (intro allI impI)
      fix j assume "j \<le> k"
      with Suc have "Suc j \<le> i" by simp
      with Cons.prems(2) have "P ((x # xs) ! Suc j)" by blast
      then show "P (xs ! j)" by simp
    qed
    ultimately have "xs ! k \<in> set (takeWhile P xs)" by (rule Cons.IH)
    with x Suc show ?thesis by simp
  qed
qed

lemma Scan_line:
  assumes "i < length (textLines c)"
    and "\<forall>j\<le>i. int (length (textLines c ! j)) < MaxScanTokenSize"
  shows "dropCR (textLines c ! i) \<in> set (Scan c)"
  using takeWhile_nth_mem [of i "textLines c" "\<lambda>l. int (length l) < MaxScanTokenSize", OF assms]
  by (simp add: Scan_def)

text \<open>
  What the scanner returns. In a file system without duplicate paths that holds
  the directory, the tokens \<^verbatim>\<open>discoverComments\<close> returns are exactly the
  trimmed lines, with the marker prefix removed from their start, of the lines it
  scans in the \<open>.yaml\<close> files below the directory that contain the marker prefix
  somewhere. So a token \<open>X\<close> is found whenever a line of such a file, up to
  which no line is \<^const>\<open>MaxScanTokenSize\<close> bytes or longer, is, without a
  trailing carriage return and trimmed, exactly the marker prefix followed by
  \<open>X\<close>.
\<close>

lemma discoverComments_tokens:
  assumes d: "distinct (map Path fs)"
    and r: "\<exists>e\<in>set fs. Path e = dir \<and> IsDir e"
  shows "set (fst (discoverComments dir fs)) =
       {TrimPrefix (TrimSpace l) markerPrefix | l e.
          e \<in> set (walkEntries dir fs) \<and> isYamlFile e \<and> l \<in> set (Scan (Content e)) \<and>
          Contains l markerPrefix}
     \<and> (\<forall>e i X.
          e \<in> set (walkEntries dir fs) \<and> isYamlFile e \<and> i < length (textLines (Content e)) \<and>
          (\<forall>j\<le>i. int (length (textLines (Content e) ! j)) < MaxScanTokenSize) \<and>
          TrimSpace (dropCR (textLines (Content e) ! i)) = markerPrefix @ X
          \<longrightarrow> X \<in> set (fst (discoverComments dir fs)))"
proof (intro conjI allI impI)
  show eq: "set (fst (discoverComments dir fs)) =
       {TrimPrefix (TrimSpace l) markerPrefix | l e.
          e \<in> set (walkEntries dir fs) \<and> isYamlFile e \<and> l \<in> set (Scan (Content e)) \<and>
          Contains l markerPrefix}"
    unfolding discoverComments_def Walk_dir(1) [OF d r]
    using discoverWalk_set [OF d Walk_subset] by simp
  fix e i X
  assume a: "e \<in> set (walkEntries dir fs) \<and> isYamlFile e \<and> i < length (textLines (Content e)) \<and>
          (\<forall>j\<le>i. int (length (textLines (Content e) ! j)) < MaxScanTokenSize) \<and>
          TrimSpace (dropCR (textLines (Content e) ! i)) = markerPrefix @ X"
  let ?l = "dropCR (textLines (Content e) ! i)"
  from a have l: "?l \<in> set (Scan (Content e))" using Scan_line by blast
  from a have t: "TrimSpace ?l = markerPrefix @ X" by blast
  have "sublist (markerPrefix @ X) ?l" using TrimSpace_sublist [of ?l] t by simp
  moreover have "sublist markerPrefix (markerPrefix @ X)" by (simp add: prefix_imp_sublist)
  ultimately have c: "Contains ?l markerPrefix"
    unfolding Contains_def by (rule sublist_order.order.trans [rotated])
  have "TrimPrefix (TrimSpace ?l) markerPrefix = X"
    using t by (simp add: TrimPrefix_def HasPrefix_def)
  with a l c have "X \<in> {TrimPrefix (TrimSpace l) markerPrefix | l e.
          e \<in> set (walkEntries dir fs) \<and> isYamlFile e \<and> l \<in> set (Scan (Content e)) \<and>
          Contains l markerPrefix}" by blast
  with eq show "X \<in> set (fst (discoverComments dir fs))" by simp
qed

text \<open>
  Claim C8 at a line that holds a marker after other text. The line
  \<open>key: v # helmlint: X\<close> of a scanned \<open>.yaml\<close> file contains the marker text
  for the token \<open>X\<close>. It passes the test \<^verbatim>\<open>strings.Contains(line, prefix)\<close>,
  but \<^verbatim>\<open>strings.TrimPrefix\<close> removes the prefix from the start of the trimmed
  line only, so the whole line is recorded and \<open>X\<close> is not among the tokens
  returned.
\<close>

theorem discoverComments_inline_marker:
  "isYamlFile \<lparr>Path = ''/results/a.yaml'', IsDir = False, Content = ''key: v # helmlint: X''\<rparr>
   \<and> Contains ''key: v # helmlint: X'' (markerPrefix @ ''X'')
   \<and> discoverComments ''/results''
        [\<lparr>Path = ''/results'', IsDir = True, Content = []\<rparr>,
         \<lparr>Path = ''/results/a.yaml'', IsDir = False, Content = ''key: v # helmlint: X''\<rparr>]
       = ([''key: v # helmlint: X''], None)
   \<and> (''X'' \<in> set (fst (discoverComments ''/results''
        [\<lparr>Path = ''/results'', IsDir = True, Content = []\<rparr>,
         \<lparr>Path = ''/results/a.yaml'', IsDir = False, Content = ''key: v # helmlint: X''\<rparr>])))
       = False"
  by code_simp

section \<open>The declarations of a tree\<close>

text \<open>
  The declarations the line classifier finds in one file, as registry entries, and
  those of the \<open>.yaml\<close> files among the entries of a walk, in the order of the
  walk.
\<close>

definition fileDecls :: "string \<Rightarrow> entry \<Rightarrow> conditionalDeclRef list" where
  "fileDecls dir e =
     map (declRef dir (Path e) (Split_nl (Content e))) (declarations (Split_nl (Content e)))"

definition treeDecls :: "string \<Rightarrow> entry list \<Rightarrow> conditionalDeclRef list" where
  "treeDecls dir es = concat (map (fileDecls dir) (filter isYamlFile es))"

text \<open>
  The registry after the entries \<open>rs\<close> were stored under the tokens number \<open>n\<close>,
  \<open>n + 1\<close>, ...
\<close>

definition registeredAll ::
  "(nat \<Rightarrow> string) \<Rightarrow> nat \<Rightarrow> conditionalDeclRef list \<Rightarrow> registry \<Rightarrow> registry" where
  "registeredAll uuid n rs comments =
     fold (\<lambda>(j, r). AList.update (uuid j) r) (zip [n..<n + length rs] rs) comments"

section \<open>Walking the tree\<close>



lemma declRank_declarations:
  "map (\<lambda>i. length (filter P [0..<i])) (filter P [0..<m]) = [0..<length (filter P [0..<m])]"
  by (induction m) auto

lemma fold_zip_map:
  "fold (\<lambda>i. f (g i) (h i)) is c = fold (\<lambda>(j, r). f j r) (zip (map g is) (map h is)) c"
  by (induction "is" arbitrary: c) auto

lemma map_add_upt_left: "map (\<lambda>k. n + k) [0..<m] = [n..<n + m]"
  by (induction m) simp_all

lemma upt_split3: "[n..<n + (a + b)] = [n..<n + a] @ [n + a..<n + a + b]"
proof -
  have "n \<le> n + a" by simp
  then have "[n..<(n + a) + b] = [n..<n + a] @ [n + a..<(n + a) + b]"
    by (rule upt_add_eq_append)
  moreover have "n + (a + b) = (n + a) + b" by simp
  ultimately show ?thesis by (simp only:)
qed

lemma registered_registeredAll:
  "registered uuid dir path n L (declarations L) C =
   registeredAll uuid n (map (declRef dir path L) (declarations L)) C"
proof -
  have "map (declRank L) (declarations L) = [0..<length (declarations L)]"
    unfolding declRank_def declarations_def by (rule declRank_declarations)
  then have "map (\<lambda>k. n + k) (map (declRank L) (declarations L)) =
     [n..<n + length (declarations L)]"
    by (simp only: map_add_upt_left)
  then have m: "map (\<lambda>i. n + declRank L i) (declarations L) = [n..<n + length (declarations L)]"
    by (simp only: map_map comp_def)
  have "registered uuid dir path n L (declarations L) C =
     fold (\<lambda>(j, r). AList.update (uuid j) r)
       (zip (map (\<lambda>i. n + declRank L i) (declarations L)) (map (declRef dir path L) (declarations L))) C"
    unfolding registered_def
    by (rule fold_zip_map [of "\<lambda>j r. AList.update (uuid j) r" "\<lambda>i. n + declRank L i"
        "declRef dir path L" "declarations L" C])
  then show ?thesis unfolding registeredAll_def m by (simp only: length_map)
qed

lemma registeredAll_append:
  "registeredAll uuid n (rs1 @ rs2) C =
   registeredAll uuid (n + length rs1) rs2 (registeredAll uuid n rs1 C)"
proof -
  have "[n..<n + length (rs1 @ rs2)] = [n..<n + length rs1] @ [n + length rs1..<n + length rs1 + length rs2]"
    by (simp only: length_append upt_split3)
  then have "zip [n..<n + length (rs1 @ rs2)] (rs1 @ rs2) =
     zip [n..<n + length rs1] rs1 @ zip [n + length rs1..<n + length rs1 + length rs2] rs2"
    by (simp only: zip_append length_upt add_diff_cancel_left')
  then show ?thesis unfolding registeredAll_def by (simp only: fold_append comp_def)
qed

lemma registeredAll_Nil: "registeredAll uuid n [] C = C"
  by (simp add: registeredAll_def)

lemma injectFile_entry:
  assumes d: "distinct (map Path fs)" and e: "e \<in> set fs" and y: "isYamlFile e"
    and u: "\<forall>j. isUUIDString (uuid j)" and p: "length dir < length (Path e)"
  shows "\<exists>c. injectFile uuid dir (Path e) (fs, C, n) =
     Inr (map (\<lambda>x. if Path x = Path e then x\<lparr>Content := c\<rparr> else x) fs,
          registeredAll uuid n (fileDecls dir e) C, n + length (fileDecls dir e))"
proof -
  from y have "\<not> IsDir e" by (simp add: isYamlFile_iff)
  with d e have rd: "ReadFile (Path e) fs = Inr (Content e)" by (rule ReadFile_entry)
  let ?L = "Split_nl (Content e)"
  from injectLoop_file [OF u p, of ?L C n] obtain lines where
    loop: "forEach (injectLine uuid dir (Path e)) [0..<length ?L] (?L, C, n) =
        Inr (lines, registered uuid dir (Path e) n ?L (declarations ?L) C,
             n + length (declarations ?L))" by blast
  have "injectFile uuid dir (Path e) (fs, C, n) =
       Inr (map (\<lambda>x. if Path x = Path e then x\<lparr>Content := Join_nl lines\<rparr> else x) fs,
            registered uuid dir (Path e) n ?L (declarations ?L) C,
            n + length (declarations ?L))"
    using rd loop WriteFile_existing [OF rd] by (simp add: injectFile_def Let_def)
  then show ?thesis
    by (auto simp: registered_registeredAll fileDecls_def)
qed

lemma written_Path:
  "map Path (map (\<lambda>x. if Path x = p then x\<lparr>Content := c\<rparr> else x) fs) = map Path fs"
  by (induction fs) simp_all

lemma written_IsDir:
  "map IsDir (map (\<lambda>x. if Path x = p then x\<lparr>Content := c\<rparr> else x) fs) = map IsDir fs"
  by (induction fs) simp_all

lemma written_other_mem:
  assumes "x \<in> set fs" "Path x \<noteq> p"
  shows "x \<in> set (map (\<lambda>x. if Path x = p then x\<lparr>Content := c\<rparr> else x) fs)"
proof -
  from assms(2) have "x = (\<lambda>x. if Path x = p then x\<lparr>Content := c\<rparr> else x) x" by simp
  moreover from assms(1)
  have "(\<lambda>x. if Path x = p then x\<lparr>Content := c\<rparr> else x) x
          \<in> (\<lambda>x. if Path x = p then x\<lparr>Content := c\<rparr> else x) ` set fs"
    by (rule imageI)
  ultimately have "x \<in> (\<lambda>x. if Path x = p then x\<lparr>Content := c\<rparr> else x) ` set fs"
    by (simp only:)
  then show ?thesis by (simp only: set_map)
qed

lemma written_other_nth:
  "k < length fs \<Longrightarrow> Path (fs ! k) \<noteq> p \<Longrightarrow>
   map (\<lambda>x. if Path x = p then x\<lparr>Content := c\<rparr> else x) fs ! k = fs ! k"
  by simp

text \<open>What a walk leaves of the file system it started from.\<close>

definition walkFrame :: "entry list \<Rightarrow> filesystem \<Rightarrow> filesystem \<Rightarrow> bool" where
  "walkFrame es fs fs' =
     (map Path fs' = map Path fs \<and> map IsDir fs' = map IsDir fs \<and>
      (\<forall>k<length fs. (\<forall>e\<in>set es. isYamlFile e \<longrightarrow> Path e \<noteq> Path (fs ! k)) \<longrightarrow>
          fs' ! k = fs ! k))"

lemma injectWalk_result:
  assumes u: "\<forall>j. isUUIDString (uuid j)"
  shows "distinct (map Path fs) \<Longrightarrow>
     \<forall>e\<in>set es. isYamlFile e \<longrightarrow> e \<in> set fs \<and> length dir < length (Path e) \<Longrightarrow>
     distinct (map Path (filter isYamlFile es)) \<Longrightarrow>
     \<exists>fs'. injectWalk uuid dir es (fs, C, n) =
       Inr (fs', registeredAll uuid n (treeDecls dir es) C, n + length (treeDecls dir es)) \<and>
       walkFrame es fs fs'"
proof (induction es arbitrary: fs C n)
  case Nil
  show ?case by (simp add: treeDecls_def registeredAll_Nil walkFrame_def)
next
  case (Cons e es)
  show ?case
  proof (cases "isYamlFile e")
    case False
    from Cons.prems have
      "\<forall>e\<in>set es. isYamlFile e \<longrightarrow> e \<in> set fs \<and> length dir < length (Path e)"
      "distinct (map Path (filter isYamlFile es))" using False by simp_all
    from Cons.IH [OF Cons.prems(1) this, of C n] obtain fs' where
      r: "injectWalk uuid dir es (fs, C, n) =
       Inr (fs', registeredAll uuid n (treeDecls dir es) C, n + length (treeDecls dir es))"
      and f: "walkFrame es fs fs'" by blast
    from False have "injectWalk uuid dir (e # es) (fs, C, n) = injectWalk uuid dir es (fs, C, n)"
      by (simp add: isYamlFile_def)
    moreover from False have "treeDecls dir (e # es) = treeDecls dir es"
      by (simp add: treeDecls_def)
    moreover from f False have "walkFrame (e # es) fs fs'"
      by (simp add: walkFrame_def)
    ultimately show ?thesis using r by simp
  next
    case True
    from Cons.prems True have e: "e \<in> set fs" and p: "length dir < length (Path e)" by simp_all
    from injectFile_entry [OF Cons.prems(1) e True u p, of C n] obtain c where
      s: "injectFile uuid dir (Path e) (fs, C, n) =
     Inr (map (\<lambda>x. if Path x = Path e then x\<lparr>Content := c\<rparr> else x) fs,
          registeredAll uuid n (fileDecls dir e) C, n + length (fileDecls dir e))" by blast
    let ?fs1 = "map (\<lambda>x. if Path x = Path e then x\<lparr>Content := c\<rparr> else x) fs"
    have paths: "map Path ?fs1 = map Path fs" by (rule written_Path)
    have dirs: "map IsDir ?fs1 = map IsDir fs" by (rule written_IsDir)
    have d1: "distinct (map Path ?fs1)" by (subst paths) (rule Cons.prems(1))
    from Cons.prems(3) True have
      ni: "Path e \<notin> set (map Path (filter isYamlFile es))"
      and d2: "distinct (map Path (filter isYamlFile es))" by simp_all
    have ne: "\<forall>x\<in>set es. isYamlFile x \<longrightarrow> Path x \<noteq> Path e"
    proof (intro ballI impI notI)
      fix x assume "x \<in> set es" "isYamlFile x" "Path x = Path e"
      then have "x \<in> set (filter isYamlFile es)" by simp
      then have "Path x \<in> Path ` set (filter isYamlFile es)" by (rule imageI)
      with \<open>Path x = Path e\<close> have "Path e \<in> set (map Path (filter isYamlFile es))"
        by (simp only: set_map)
      with ni show False by blast
    qed
    have in1: "\<forall>x\<in>set es. isYamlFile x \<longrightarrow> x \<in> set ?fs1 \<and> length dir < length (Path x)"
    proof (intro ballI impI)
      fix x assume x: "x \<in> set es" "isYamlFile x"
      with Cons.prems(2) have xfs: "x \<in> set fs" and xl: "length dir < length (Path x)" by simp_all
      from x ne have "Path x \<noteq> Path e" by blast
      with xfs have "x \<in> set ?fs1" by (rule written_other_mem)
      with xl show "x \<in> set ?fs1 \<and> length dir < length (Path x)" by simp
    qed
    from Cons.IH [OF d1 in1 d2, of "registeredAll uuid n (fileDecls dir e) C" "n + length (fileDecls dir e)"]
    obtain fs' where
      r: "injectWalk uuid dir es (?fs1, registeredAll uuid n (fileDecls dir e) C, n + length (fileDecls dir e)) =
       Inr (fs', registeredAll uuid (n + length (fileDecls dir e)) (treeDecls dir es)
                   (registeredAll uuid n (fileDecls dir e) C),
            n + length (fileDecls dir e) + length (treeDecls dir es))"
      and f: "walkFrame es ?fs1 fs'" by blast
    from True have td: "treeDecls dir (e # es) = fileDecls dir e @ treeDecls dir es"
      by (simp add: treeDecls_def)
    from True s r have "injectWalk uuid dir (e # es) (fs, C, n) =
       Inr (fs', registeredAll uuid n (treeDecls dir (e # es)) C, n + length (treeDecls dir (e # es)))"
      by (simp add: isYamlFile_def td registeredAll_append)
    moreover have "walkFrame (e # es) fs fs'"
      unfolding walkFrame_def
    proof (intro conjI allI impI)
      from f have "map Path fs' = map Path ?fs1" unfolding walkFrame_def by blast
      with paths show "map Path fs' = map Path fs" by (simp only:)
      from f have "map IsDir fs' = map IsDir ?fs1" unfolding walkFrame_def by blast
      with dirs show "map IsDir fs' = map IsDir fs" by (simp only:)
    next
      fix k assume k: "k < length fs"
        and a: "\<forall>x\<in>set (e # es). isYamlFile x \<longrightarrow> Path x \<noteq> Path (fs ! k)"
      from a True have pk: "Path (fs ! k) \<noteq> Path e" by auto
      with k have same: "?fs1 ! k = fs ! k" by (rule written_other_nth)
      from a have "\<forall>x\<in>set es. isYamlFile x \<longrightarrow> Path x \<noteq> Path (?fs1 ! k)"
        using same by simp
      moreover from k have "k < length ?fs1" by simp
      moreover from f have "\<forall>k<length ?fs1. (\<forall>e\<in>set es. isYamlFile e \<longrightarrow> Path e \<noteq> Path (?fs1 ! k)) \<longrightarrow>
          fs' ! k = ?fs1 ! k" unfolding walkFrame_def by blast
      ultimately have "fs' ! k = ?fs1 ! k" by blast
      with same show "fs' ! k = fs ! k" by simp
    qed
    ultimately show ?thesis by blast
  qed
qed

lemma update_fresh: "k \<notin> fst ` set al \<Longrightarrow> AList.update k v al = al @ [(k, v)]"
  by (induction al) auto

lemma registeredAll_fresh:
  "inj_on uuid {n..<n + length rs} \<Longrightarrow>
   registeredAll uuid n rs [] = zip (map uuid [n..<n + length rs]) rs"
proof (induction rs rule: rev_induct)
  case Nil
  show ?case by (simp add: registeredAll_Nil)
next
  case (snoc r rs)
  let ?m = "n + length rs"
  from snoc.prems have inj: "inj_on uuid {n..<Suc ?m}" by simp
  then have "inj_on uuid {n..<?m}" by (rule inj_on_subset) auto
  with snoc.IH have IH: "registeredAll uuid n rs [] = zip (map uuid [n..<?m]) rs" by simp
  have fresh: "uuid ?m \<notin> fst ` set (zip (map uuid [n..<?m]) rs)"
  proof
    assume "uuid ?m \<in> fst ` set (zip (map uuid [n..<?m]) rs)"
    then have "uuid ?m \<in> set (map uuid [n..<?m])"
      by (auto dest: set_zip_leftD)
    then obtain j where j: "j \<in> {n..<?m}" "uuid j = uuid ?m" by auto
    then have "j \<in> {n..<Suc ?m}" "?m \<in> {n..<Suc ?m}" by auto
    with inj j(2) have "j = ?m" by (auto dest: inj_onD)
    with j(1) show False by simp
  qed
  have "registeredAll uuid ?m [r] (zip (map uuid [n..<?m]) rs) =
        AList.update (uuid ?m) r (zip (map uuid [n..<?m]) rs)"
    by (simp add: registeredAll_def)
  also have "\<dots> = zip (map uuid [n..<?m]) rs @ [(uuid ?m, r)]"
    using fresh by (rule update_fresh)
  also have "\<dots> = zip (map uuid [n..<Suc ?m]) (rs @ [r])"
    by simp
  finally have "registeredAll uuid ?m [r] (zip (map uuid [n..<?m]) rs) =
     zip (map uuid [n..<Suc ?m]) (rs @ [r])" .
  with IH show ?case by (simp add: registeredAll_append)
qed

lemma Walk_yaml_below:
  assumes root: "\<forall>e\<in>set fs. Path e = dir \<longrightarrow> IsDir e"
    and e: "e \<in> set (walkEntries dir fs)" and y: "isYamlFile e"
  shows "e \<in> set fs \<and> length dir < length (Path e)"
proof -
  from e have efs: "e \<in> set fs"
    and w: "Path e = dir \<or> HasPrefix (Path e) (dir @ ''/'')" by (auto simp: walkEntries_def)
  from y have "\<not> IsDir e" by (simp add: isYamlFile_iff)
  with root efs have "Path e \<noteq> dir" by blast
  with w have "prefix (dir @ ''/'') (Path e)" by (simp add: HasPrefix_def)
  then have "length (dir @ ''/'') \<le> length (Path e)" by (rule prefix_length_le)
  with efs show ?thesis by simp
qed

lemma Walk_yaml_distinct:
  "distinct (map Path fs) \<Longrightarrow> distinct (map Path (filter isYamlFile (walkEntries dir fs)))"
  unfolding walkEntries_def by (simp add: distinct_map_filter)

lemma injectComments_result:
  assumes d: "distinct (map Path fs)"
    and r: "\<exists>e\<in>set fs. Path e = dir \<and> IsDir e"
    and u: "\<forall>j. isUUIDString (uuid j)"
  shows "\<exists>fs'. injectComments uuid dir fs =
           Inr (fs', registeredAll uuid 0 (treeDecls dir (walkEntries dir fs)) []) \<and>
         walkFrame (walkEntries dir fs) fs fs'"
proof -
  note root = Walk_dir(2) [OF d r]
  have a: "\<forall>e\<in>set (walkEntries dir fs). isYamlFile e \<longrightarrow> e \<in> set fs \<and> length dir < length (Path e)"
    using Walk_yaml_below [OF root] by blast
  from injectWalk_result [OF u d a Walk_yaml_distinct [OF d], of "[]" 0]
  obtain fs' where
    "injectWalk uuid dir (walkEntries dir fs) (fs, [], 0) =
       Inr (fs', registeredAll uuid 0 (treeDecls dir (walkEntries dir fs)) [],
            0 + length (treeDecls dir (walkEntries dir fs)))"
    "walkFrame (walkEntries dir fs) fs fs'" by blast
  then show ?thesis by (auto simp: injectComments_def Walk_dir(1) [OF d r])
qed

text \<open>
  The registry of a directory that exists, in a file system without duplicate
  paths and with pairwise different tokens: one entry per declaration of the
  \<open>.yaml\<close> files of the tree.
\<close>

lemma injectComments_registered:
  assumes d: "distinct (map Path fs)"
    and r: "\<exists>e\<in>set fs. Path e = dir \<and> IsDir e"
    and u: "\<forall>j. isUUIDString (uuid j)"
    and i: "inj_on uuid {0..<length (treeDecls dir (walkEntries dir fs))}"
  shows "\<exists>fs' ids.
     injectComments uuid dir fs = Inr (fs', ids) \<and>
     map snd ids = treeDecls dir (walkEntries dir fs) \<and>
     map fst ids = map uuid [0..<length ids] \<and>
     distinct (map fst ids) \<and>
     length ids = length (treeDecls dir (walkEntries dir fs))"
proof -
  let ?rs = "treeDecls dir (walkEntries dir fs)"
  let ?ids = "zip (map uuid [0..<length ?rs]) ?rs"
  from injectComments_result [OF d r u] obtain fs' where
    "injectComments uuid dir fs = Inr (fs', registeredAll uuid 0 ?rs [])" by blast
  moreover have "registeredAll uuid 0 ?rs [] = ?ids"
    using registeredAll_fresh [of uuid 0 ?rs] i by simp
  ultimately have res: "injectComments uuid dir fs = Inr (fs', ?ids)" by simp
  have len: "length ?ids = length ?rs" by simp
  have s: "map snd ?ids = ?rs" by (simp add: map_snd_zip)
  have f: "map fst ?ids = map uuid [0..<length ?ids]" by (simp add: map_fst_zip)
  have "distinct (map uuid [0..<length ?rs])"
    using i by (simp add: distinct_map)
  with f have dk: "distinct (map fst ?ids)" by simp
  from res s f dk len show ?thesis by blast
qed

lemma exampleUUID_inj2: "inj_on exampleUUID {0..<2}"
proof -
  have "{0..<2::nat} = {0, 1}" by auto
  moreover have "exampleUUID 0 \<noteq> exampleUUID 1" by (simp add: exampleUUID_def)
  ultimately show ?thesis by simp
qed

lemma exampleFS_distinct: "distinct (map Path exampleFS)"
  by (simp add: exampleFS_def)

lemma exampleFS_root: "\<forall>e\<in>set exampleFS. Path e = ''/chart'' \<longrightarrow> IsDir e"
  by (auto simp: exampleFS_def)

lemma exampleFS_rootDir: "\<exists>e\<in>set exampleFS. Path e = ''/chart'' \<and> IsDir e"
  by (simp add: exampleFS_def)

lemma exampleFS_decls: "length (treeDecls ''/chart'' (walkEntries ''/chart'' exampleFS)) = 2"
  by code_simp

section \<open>Only files named \<open>.yaml\<close> are visited\<close>

lemma Walk_filter: "walkEntries dir (filter P fs) = filter P (walkEntries dir fs)"
  unfolding walkEntries_def by (induction fs) auto

lemma treeDecls_filter: "treeDecls dir (filter isYamlFile es) = treeDecls dir es"
  by (simp add: treeDecls_def)

lemma discoverWalk_yaml:
  assumes "distinct (map Path fs)"
  shows "set es \<subseteq> set fs \<Longrightarrow>
     discoverWalk fs es =
       (concat (map (\<lambda>e. discoverLines (Scan (Content e))) (filter isYamlFile es)), None)"
proof (induction es)
  case Nil
  show ?case by simp
next
  case (Cons e es)
  then have IH: "discoverWalk fs es =
       (concat (map (\<lambda>e. discoverLines (Scan (Content e))) (filter isYamlFile es)), None)"
    and e: "e \<in> set fs" by simp_all
  show ?case
  proof (cases "isYamlFile e")
    case False
    then have "discoverWalk fs (e # es) = discoverWalk fs es" by (simp add: isYamlFile_def)
    with IH False show ?thesis by simp
  next
    case True
    then have c: "\<not> (IsDir e \<or> \<not> HasSuffix (Name e) ''.yaml'')"
      by (simp add: isYamlFile_def)
    then have "ReadFile (Path e) fs = Inr (Content e)"
      using ReadFile_entry [OF assms e] by simp
    with IH True c show ?thesis by simp
  qed
qed

lemma discoverComments_yaml:
  assumes d: "distinct (map Path fs)"
    and r: "\<exists>e\<in>set fs. Path e = dir \<and> IsDir e"
  shows "discoverComments dir fs =
     (concat (map (\<lambda>e. discoverLines (Scan (Content e))) (filter isYamlFile (walkEntries dir fs))), None)"
  unfolding discoverComments_def Walk_dir(1) [OF d r]
  using discoverWalk_yaml [OF d Walk_subset] by simp

text \<open>
  Claim C10. The injector and the scanner pass over every entry that is a directory
  or whose name does not end in \<open>.yaml\<close>. Such an entry is left as it is by
  \<^verbatim>\<open>injectComments\<close>. And the registry \<^verbatim>\<open>injectComments\<close> returns and the
  tokens \<^verbatim>\<open>discoverComments\<close> returns are the same for any two file systems
  that hold the walked directory and the same \<open>.yaml\<close> files: the other files
  may hold anything, or be missing.
\<close>

theorem only_yaml_files_visited:
  assumes d: "distinct (map Path fs)"
    and r: "\<exists>e\<in>set fs. Path e = dir \<and> IsDir e"
    and u: "\<forall>j. isUUIDString (uuid j)"
    and d2: "distinct (map Path fs2)"
    and r2: "\<exists>e\<in>set fs2. Path e = dir \<and> IsDir e"
    and y: "filter isYamlFile fs2 = filter isYamlFile fs"
  shows "\<exists>fs' ids.
     injectComments uuid dir fs = Inr (fs', ids) \<and>
     length fs' = length fs \<and>
     (\<forall>k<length fs. \<not> isYamlFile (fs ! k) \<longrightarrow> fs' ! k = fs ! k) \<and>
     (\<exists>fs2'. injectComments uuid dir fs2 = Inr (fs2', ids)) \<and>
     discoverComments dir fs2 = discoverComments dir fs"
proof -
  from injectComments_result [OF d r u] obtain fs' where
    res: "injectComments uuid dir fs =
        Inr (fs', registeredAll uuid 0 (treeDecls dir (walkEntries dir fs)) [])"
    and f: "walkFrame (walkEntries dir fs) fs fs'" by blast
  from f have "map Path fs' = map Path fs" unfolding walkFrame_def by blast
  then have len: "length fs' = length fs" by (rule map_eq_imp_length_eq)
  have same: "\<forall>k<length fs. \<not> isYamlFile (fs ! k) \<longrightarrow> fs' ! k = fs ! k"
  proof (intro allI impI)
    fix k assume k: "k < length fs" and ny: "\<not> isYamlFile (fs ! k)"
    have "\<forall>e\<in>set (walkEntries dir fs). isYamlFile e \<longrightarrow> Path e \<noteq> Path (fs ! k)"
    proof (intro ballI impI notI)
      fix e assume e: "e \<in> set (walkEntries dir fs)" "isYamlFile e" "Path e = Path (fs ! k)"
      from e(1) have "e \<in> set fs" using Walk_subset by blast
      moreover from k have "fs ! k \<in> set fs" by simp
      ultimately have "e = fs ! k" using d e(3) by (simp add: distinct_map inj_on_def)
      with e(2) ny show False by simp
    qed
    with f k show "fs' ! k = fs ! k" unfolding walkFrame_def by blast
  qed
  have w: "filter isYamlFile (walkEntries dir fs2) = filter isYamlFile (walkEntries dir fs)"
    using y by (simp only: Walk_filter [symmetric])
  have "treeDecls dir (walkEntries dir fs2) = treeDecls dir (filter isYamlFile (walkEntries dir fs2))"
    by (simp only: treeDecls_filter)
  also have "\<dots> = treeDecls dir (walkEntries dir fs)"
    by (simp only: w treeDecls_filter)
  finally have t: "treeDecls dir (walkEntries dir fs2) = treeDecls dir (walkEntries dir fs)" .
  from injectComments_result [OF d2 r2 u] obtain fs2' where
    "injectComments uuid dir fs2 =
       Inr (fs2', registeredAll uuid 0 (treeDecls dir (walkEntries dir fs2)) [])"
    by blast
  then have e1: "\<exists>fs2'. injectComments uuid dir fs2 =
      Inr (fs2', registeredAll uuid 0 (treeDecls dir (walkEntries dir fs)) [])"
    unfolding t by blast
  have e2: "discoverComments dir fs2 = discoverComments dir fs"
    by (simp only: discoverComments_yaml [OF d r] discoverComments_yaml [OF d2 r2] w)
  from res len same e1 e2 show ?thesis by blast
qed

text \<open>
  The example chart, and the same chart with another template in place of the
  helper template, not named \<open>.yaml\<close>, which holds an if-opening tag and the
  text of a marker.
\<close>

definition exampleFS2 :: filesystem where
  "exampleFS2 =
     [\<lparr>Path = ''/chart'', IsDir = True, Content = []\<rparr>,
      \<lparr>Path = ''/chart/templates'', IsDir = True, Content = []\<rparr>,
      \<lparr>Path = ''/chart/templates/cm.yaml'', IsDir = False, Content = exampleContent\<rparr>,
      \<lparr>Path = ''/chart/templates/notes.yml'', IsDir = False,
       Content = ''{{ if .y }}'' @ [CHR 0x0A] @ ''# helmlint: X''\<rparr>]"

theorem only_yaml_files_visited_witness:
  "distinct (map Path exampleFS)
   \<and> list_ex (\<lambda>e. Path e = ''/chart'' \<and> IsDir e) exampleFS
   \<and> (\<forall>j. isUUIDString (exampleUUID j))
   \<and> distinct (map Path exampleFS2)
   \<and> list_ex (\<lambda>e. Path e = ''/chart'' \<and> IsDir e) exampleFS2
   \<and> filter isYamlFile exampleFS2 = filter isYamlFile exampleFS
   \<and> isYamlFile (exampleFS ! 3) = False
   \<and> conditionalRegex_MatchString (Content (exampleFS ! 3))
   \<and> exampleFS2 \<noteq> exampleFS
   \<and> (\<exists>fs' fs2' ids.
        injectComments exampleUUID ''/chart'' exampleFS = Inr (fs', ids) \<and>
        fs' ! 3 = exampleFS ! 3 \<and>
        injectComments exampleUUID ''/chart'' exampleFS2 = Inr (fs2', ids))
   \<and> discoverComments ''/chart'' exampleFS2 = discoverComments ''/chart'' exampleFS"
proof -
  have u: "\<forall>j. isUUIDString (exampleUUID j)" by (simp add: exampleUUID_isUUIDString)
  have k: "3 < length exampleFS" by (simp add: exampleFS_def)
  have ny: "\<not> isYamlFile (exampleFS ! 3)" by code_simp
  have m: "conditionalRegex_MatchString (Content (exampleFS ! 3))" by code_simp
  have d2: "distinct (map Path exampleFS2)" by (simp add: exampleFS2_def)
  have r2: "\<exists>e\<in>set exampleFS2. Path e = ''/chart'' \<and> IsDir e" by (simp add: exampleFS2_def)
  have y: "filter isYamlFile exampleFS2 = filter isYamlFile exampleFS" by code_simp
  have ne: "exampleFS2 \<noteq> exampleFS" by (simp add: exampleFS2_def exampleFS_def)
  from only_yaml_files_visited [OF exampleFS_distinct exampleFS_rootDir u d2 r2 y]
  obtain fs' ids fs2' where
    "injectComments exampleUUID ''/chart'' exampleFS = Inr (fs', ids)"
    "\<forall>k<length exampleFS. \<not> isYamlFile (exampleFS ! k) \<longrightarrow> fs' ! k = exampleFS ! k"
    "injectComments exampleUUID ''/chart'' exampleFS2 = Inr (fs2', ids)"
    and e2: "discoverComments ''/chart'' exampleFS2 = discoverComments ''/chart'' exampleFS"
    by blast
  with k ny have "\<exists>fs' fs2' ids.
        injectComments exampleUUID ''/chart'' exampleFS = Inr (fs', ids) \<and>
        fs' ! 3 = exampleFS ! 3 \<and>
        injectComments exampleUUID ''/chart'' exampleFS2 = Inr (fs2', ids)" by blast
  moreover have "list_ex (\<lambda>e. Path e = ''/chart'' \<and> IsDir e) exampleFS"
    using exampleFS_rootDir by (simp only: list_ex_iff)
  moreover have "list_ex (\<lambda>e. Path e = ''/chart'' \<and> IsDir e) exampleFS2"
    using r2 by (simp only: list_ex_iff)
  ultimately show ?thesis using exampleFS_distinct u d2 y ny m ne e2 by blast
qed

section \<open>Lines that end a block scalar\<close>


lemma whiteSpaceRunes_facts:
  "list_all (\<lambda>e. e \<noteq> [] \<and> CHR ''|'' \<notin> set e \<and> last e \<noteq> CHR ''|'' \<and>
                  last e \<notin> set ''0123456789abcdef-'') whiteSpaceRunes"
  by code_simp

lemma whiteSpaceRunes_antichain_all:
  "list_all (\<lambda>e. list_all (\<lambda>e'. \<not> suffix e e' \<or> e = e') whiteSpaceRunes) whiteSpaceRunes"
  by code_simp

lemma whiteSpaceRunes_antichain:
  "e \<in> set whiteSpaceRunes \<Longrightarrow> e' \<in> set whiteSpaceRunes \<Longrightarrow> suffix e e' \<Longrightarrow> e = e'"
  using whiteSpaceRunes_antichain_all unfolding list_all_iff by blast

lemma whiteSpaceRunes_no_bar: "e \<in> set whiteSpaceRunes \<Longrightarrow> CHR ''|'' \<notin> set e"
  using whiteSpaceRunes_facts unfolding list_all_iff by blast

lemma whiteSpaceRunes_last_no_bar: "e \<in> set whiteSpaceRunes \<Longrightarrow> last e \<noteq> CHR ''|''"
  using whiteSpaceRunes_facts unfolding list_all_iff by blast

lemma whiteSpaceRunes_last_no_hex:
  "e \<in> set whiteSpaceRunes \<Longrightarrow> last e \<notin> set ''0123456789abcdef-''"
  using whiteSpaceRunes_facts unfolding list_all_iff by blast

lemma trailingSpaceRune_None_iff:
  "trailingSpaceRune s = None \<longleftrightarrow> (\<forall>e\<in>set whiteSpaceRunes. \<not> suffix e s)"
  by (auto simp: trailingSpaceRune_def find_None_iff)

lemma trailingSpaceRune_unique:
  assumes "e \<in> set whiteSpaceRunes" "suffix e s"
  shows "trailingSpaceRune s = Some e"
proof (cases "trailingSpaceRune s")
  case None
  with assms show ?thesis by (simp add: trailingSpaceRune_None_iff)
next
  case (Some e')
  then have e': "e' \<in> set whiteSpaceRunes" "suffix e' s" using trailingSpaceRune_Some by blast+
  from assms(2) e'(2) have "suffix e e' \<or> suffix e' e" by (rule suffix_same_cases)
  with assms(1) e'(1) have "e = e'" using whiteSpaceRunes_antichain by blast
  with Some show ?thesis by simp
qed

lemma TrimRightSpace_None: "trailingSpaceRune s = None \<Longrightarrow> TrimRightSpace s = s"
  by (subst TrimRightSpace.simps) simp

lemma TrimRightSpace_append_rune:
  assumes "e \<in> set whiteSpaceRunes"
  shows "TrimRightSpace (s @ e) = TrimRightSpace s"
proof -
  have "trailingSpaceRune (s @ e) = Some e"
    using assms by (rule trailingSpaceRune_unique) (simp add: suffix_def)
  then show ?thesis by (subst TrimRightSpace.simps) simp
qed

lemma TrimRightSpace_Nil: "TrimRightSpace [] = []"
proof -
  have "trailingSpaceRune [] = None"
    using whiteSpaceRunes_nonempty by (auto simp: trailingSpaceRune_None_iff)
  then show ?thesis by (rule TrimRightSpace_None)
qed

lemma TrimRightSpace_snoc_keep:
  assumes "\<forall>e\<in>set whiteSpaceRunes. last e \<noteq> c"
  shows "TrimRightSpace (x @ [c]) = x @ [c]"
proof -
  have "trailingSpaceRune (x @ [c]) = None"
    unfolding trailingSpaceRune_None_iff
  proof (intro ballI notI)
    fix e assume e: "e \<in> set whiteSpaceRunes" "suffix e (x @ [c])"
    from e(1) have "e \<noteq> []" by (rule whiteSpaceRunes_nonempty)
    with e(2) have "last e = c" by (auto simp: suffix_def) (metis last_appendR last_snoc)
    with assms e(1) show False by blast
  qed
  then show ?thesis by (rule TrimRightSpace_None)
qed

text \<open>The white space that \<^const>\<open>TrimRightSpace\<close> removes entirely.\<close>

lemma TrimRightSpace_all_space:
  "TrimRightSpace w = [] \<Longrightarrow> TrimRightSpace (x @ w) = TrimRightSpace x"
proof (induction w arbitrary: x rule: TrimRightSpace.induct)
  case (1 w)
  show ?case
  proof (cases "trailingSpaceRune w")
    case None
    with "1.prems" have "w = []" by (simp add: TrimRightSpace_None)
    then show ?thesis by simp
  next
    case (Some e)
    then have e: "e \<in> set whiteSpaceRunes" "suffix e w" using trailingSpaceRune_Some by blast+
    define w' where "w' = take (length w - length e) w"
    from e(2) have w: "w = w' @ e" unfolding w'_def by (auto simp: suffix_def)
    from Some "1.prems" have "TrimRightSpace w' = []"
      unfolding w'_def by (subst (asm) TrimRightSpace.simps) simp
    with "1.IH" [OF Some] have "TrimRightSpace (x @ w') = TrimRightSpace x"
      unfolding w'_def by blast
    moreover have "TrimRightSpace (x @ w) = TrimRightSpace (x @ w')"
      using TrimRightSpace_append_rune [OF e(1), of "x @ w'"] w by simp
    ultimately show ?thesis by simp
  qed
qed

lemma TrimRightSpace_bar_decompose:
  "suffix ''|'' (TrimRightSpace t) \<Longrightarrow> \<exists>u w. t = u @ ''|'' @ w \<and> TrimRightSpace w = []"
proof (induction t rule: TrimRightSpace.induct)
  case (1 t)
  show ?case
  proof (cases "trailingSpaceRune t")
    case None
    with "1.prems" have "suffix ''|'' t" by (simp add: TrimRightSpace_None)
    then obtain u where "t = u @ ''|'' @ []" by (auto simp: suffix_def)
    with TrimRightSpace_Nil show ?thesis by blast
  next
    case (Some e)
    then have e: "e \<in> set whiteSpaceRunes" "suffix e t" using trailingSpaceRune_Some by blast+
    define t' where "t' = take (length t - length e) t"
    from e(2) have t: "t = t' @ e" unfolding t'_def by (auto simp: suffix_def)
    from Some "1.prems" have "suffix ''|'' (TrimRightSpace t')"
      unfolding t'_def by (subst (asm) TrimRightSpace.simps) simp
    with "1.IH" [OF Some] obtain u w where uw: "t' = u @ ''|'' @ w" "TrimRightSpace w = []"
      unfolding t'_def by blast
    have "TrimRightSpace (w @ e) = []"
      using TrimRightSpace_append_rune [OF e(1), of w] uw(2) by simp
    moreover from t uw(1) have "t = u @ ''|'' @ (w @ e)" by simp
    ultimately show ?thesis by blast
  qed
qed

lemma TrimRightSpace_bar_compose:
  assumes "TrimRightSpace w = []"
  shows "TrimRightSpace (u @ ''|'' @ w) = u @ ''|''"
proof -
  have "TrimRightSpace ((u @ ''|'') @ w) = TrimRightSpace (u @ ''|'')"
    using assms by (rule TrimRightSpace_all_space)
  moreover have "TrimRightSpace (u @ [CHR ''|'']) = u @ [CHR ''|'']"
    using whiteSpaceRunes_last_no_bar by (intro TrimRightSpace_snoc_keep) blast
  ultimately show ?thesis by simp
qed

lemma prefix_before_char:
  assumes "prefix e (u @ c # w)" "c \<notin> set e"
  shows "prefix e u"
proof -
  from assms(1) have "prefix e u \<or> (\<exists>us. e = u @ us \<and> prefix us (c # w))"
    by (simp add: prefix_append)
  then show ?thesis
  proof
    assume "\<exists>us. e = u @ us \<and> prefix us (c # w)"
    then obtain us where us: "e = u @ us" "prefix us (c # w)" by blast
    show ?thesis
    proof (cases us)
      case Nil
      with us(1) show ?thesis by simp
    next
      case (Cons a us')
      with us(2) have "a = c" by simp
      with Cons us(1) assms(2) show ?thesis by simp
    qed
  qed
qed

lemma TrimLeftSpace_before_bar:
  "\<exists>u'. TrimLeftSpace (u @ CHR ''|'' # w) = u' @ CHR ''|'' # w"
proof (induction "u @ CHR ''|'' # w" arbitrary: u rule: TrimLeftSpace.induct)
  case 1
  show ?case
  proof (cases "leadingSpaceRune (u @ CHR ''|'' # w)")
    case None
    then have "TrimLeftSpace (u @ CHR ''|'' # w) = u @ CHR ''|'' # w"
      by (subst TrimLeftSpace.simps) simp
    then show ?thesis by blast
  next
    case (Some e)
    then have e: "e \<in> set whiteSpaceRunes" "prefix e (u @ CHR ''|'' # w)"
      using leadingSpaceRune_Some by blast+
    from e(1) have "CHR ''|'' \<notin> set e" by (rule whiteSpaceRunes_no_bar)
    with e(2) have "prefix e u" by (rule prefix_before_char)
    then have d: "drop (length e) (u @ CHR ''|'' # w) = drop (length e) u @ CHR ''|'' # w"
      by (auto simp: prefix_def)
    from "1.hyps" [OF Some d] obtain u' where
      "TrimLeftSpace (drop (length e) u @ CHR ''|'' # w) = u' @ CHR ''|'' # w" by blast
    with Some d have "TrimLeftSpace (u @ CHR ''|'' # w) = u' @ CHR ''|'' # w"
      by (subst TrimLeftSpace.simps) simp
    then show ?thesis by blast
  qed
qed

text \<open>
  A line ends a block scalar exactly when its last \<open>|\<close> is followed by white
  space only.
\<close>

lemma endsBlockScalar_iff:
  "endsBlockScalar l = (\<exists>u w. l = u @ ''|'' @ w \<and> TrimRightSpace w = [])"
proof
  assume "endsBlockScalar l"
  then have "suffix ''|'' (TrimRightSpace (TrimLeftSpace l))"
    by (simp add: endsBlockScalar_def HasSuffix_def TrimSpace_def)
  from TrimRightSpace_bar_decompose [OF this] obtain u w where
    uw: "TrimLeftSpace l = u @ ''|'' @ w" "TrimRightSpace w = []" by blast
  from TrimLeftSpace_suffix [of l] obtain p where "l = p @ TrimLeftSpace l"
    by (auto simp: suffix_def)
  with uw(1) have "l = (p @ u) @ ''|'' @ w" by simp
  with uw(2) show "\<exists>u w. l = u @ ''|'' @ w \<and> TrimRightSpace w = []" by blast
next
  assume "\<exists>u w. l = u @ ''|'' @ w \<and> TrimRightSpace w = []"
  then obtain u w where uw: "l = u @ ''|'' @ w" "TrimRightSpace w = []" by blast
  from TrimLeftSpace_before_bar [of u w] obtain u' where
    "TrimLeftSpace (u @ CHR ''|'' # w) = u' @ CHR ''|'' # w" by blast
  with uw(1) have "TrimLeftSpace l = u' @ ''|'' @ w" by simp
  with TrimRightSpace_bar_compose [OF uw(2), of u'] have "TrimSpace l = u' @ ''|''"
    by (simp add: TrimSpace_def)
  then show "endsBlockScalar l"
    by (simp add: endsBlockScalar_def HasSuffix_def)
qed

section \<open>The coverage reconciler, exception mode\<close>

text \<open>
  \<^verbatim>\<open>fmt.Sprintf("%s{{/* helmlint:ignore */}}", indentation) + "\n" + lines[def.Line]\<close>
  with an indentation of \<open>k\<close> spaces.
\<close>

definition ignoreAnnotation :: string where
  "ignoreAnnotation = ''{{/* helmlint:ignore */}}''"

definition annotatedLine :: "nat \<Rightarrow> string \<Rightarrow> string" where
  "annotatedLine k line = Repeat_space k @ ignoreAnnotation @ [CHR 0x0A] @ line"


text \<open>
  The body of \<^verbatim>\<open>for _, def := range defs\<close>: \<^verbatim>\<open>findIndentation\<close> and the
  indexing of \<^verbatim>\<open>lines\<close> panic when \<^verbatim>\<open>def.Line\<close> is no index of the file's
  lines.
\<close>

definition injectException :: "conditionalDeclRef \<Rightarrow> string list \<Rightarrow> error + string list" where
  "injectException d lines =
     (case findIndentation lines (Line d) of
        Inl e \<Rightarrow> Inl e
      | Inr k \<Rightarrow>
          (case index lines (Line d) of
             Inl e \<Rightarrow> Inl e
           | Inr l \<Rightarrow> Inr (lines[nat (Line d) := annotatedLine k l])))"

text \<open>
  The first loop of \<^verbatim>\<open>injectExceptions\<close>: the map \<^verbatim>\<open>byFile\<close>, from a file
  to the uncovered entries of that file, as an association list. A missing key
  reads as the empty slice.
\<close>

type_synonym byFile = "(string \<times> conditionalDeclRef list) list"

definition byFileLookup :: "byFile \<Rightarrow> string \<Rightarrow> conditionalDeclRef list" where
  "byFileLookup bf f = (case map_of bf f of None \<Rightarrow> [] | Some ds \<Rightarrow> ds)"

fun groupByFile :: "registry \<Rightarrow> string list \<Rightarrow> byFile \<Rightarrow> byFile" where
  "groupByFile [] seenIDs bf = bf"
| "groupByFile ((tok, d) # ids) seenIDs bf =
     (if tok \<in> set seenIDs then groupByFile ids seenIDs bf
      else groupByFile ids seenIDs (AList.update (File d) (byFileLookup bf (File d) @ [d]) bf))"

text \<open>
  The second loop, over the files of \<^verbatim>\<open>byFile\<close>: it returns at the first error,
  leaving the files written so far; a panic is the error \<^const>\<open>IndexOutOfRange\<close>.
\<close>

fun exceptFiles ::
  "string \<Rightarrow> byFile \<Rightarrow> T \<times> filesystem \<Rightarrow> (T \<times> filesystem) \<times> error option" where
  "exceptFiles chartDir [] st = (st, None)"
| "exceptFiles chartDir ((relPath, defs) # rest) (t, fs) =
     (let path = Join chartDir relPath in
      case ReadFile path fs of
        Inl e \<Rightarrow> ((t, fs), Some e)
      | Inr file \<Rightarrow>
          (case forEach injectException defs (Split_nl file) of
             Inl e \<Rightarrow> ((t, fs), Some e)
           | Inr lines \<Rightarrow>
               (case WriteFile path (Join_nl lines) fs of
                  Inl e \<Rightarrow> ((t, fs), Some e)
                | Inr fs' \<Rightarrow>
                    exceptFiles chartDir rest
                      (Logf t (''Injected exceptions into '' @ relPath), fs'))))"

text \<open>
  The configuration. A recursion rule is an extraction
  function, which writes files below its second argument and may fail, and the
  options of the rule; a visitor sees the test handle and a rendered directory.
\<close>

datatype options =
  Options (Preserve: bool) (WriteExceptions: bool) (Concurrency: int) (ChartDir: string)
    (FixturesDir: string) (PoliciesDir: string) (Recursions: "recursionRule list")
    (Visitors: "(T \<Rightarrow> string \<Rightarrow> filesystem \<Rightarrow> T) list")
and recursionRule =
  RecursionRule (Fn: "string \<Rightarrow> string \<Rightarrow> filesystem \<Rightarrow> string option \<times> filesystem")
    (Opts: options)

definition injectExceptions ::
  "T \<Rightarrow> options \<Rightarrow> registry \<Rightarrow> string list \<Rightarrow> filesystem \<Rightarrow>
   (T \<times> filesystem) \<times> error option" where
  "injectExceptions t opts ids seenIDs fs =
     exceptFiles (ChartDir opts) (groupByFile ids seenIDs []) (t, fs)"

section \<open>Rewritten lines and block scalars\<close>

lemma isUUIDString_last:
  assumes "isUUIDString t"
  shows "t \<noteq> [] \<and> last t \<in> set ''0123456789abcdef-''"
proof -
  from assms have l: "length t = 36" and a: "\<forall>c\<in>set t. c \<in> set ''0123456789abcdef-''"
    unfolding isUUIDString_def list_all_iff by blast+
  from l have "t \<noteq> []" by auto
  moreover then have "last t \<in> set t" by (rule last_in_set)
  ultimately show ?thesis using a by blast
qed

lemma TrimRightSpace_empty_last:
  assumes "TrimRightSpace w = []" "w \<noteq> []"
  shows "\<exists>e\<in>set whiteSpaceRunes. last e = last w"
proof (cases "trailingSpaceRune w")
  case None
  with assms show ?thesis by (simp add: TrimRightSpace_None)
next
  case (Some e)
  then have e: "e \<in> set whiteSpaceRunes" "suffix e w" using trailingSpaceRune_Some by blast+
  from e(1) have "e \<noteq> []" by (rule whiteSpaceRunes_nonempty)
  with e(2) have "last e = last w" by (auto simp: suffix_def)
  with e(1) show ?thesis by blast
qed

lemma markedLine_not_endsBlockScalar:
  assumes "isUUIDString t"
  shows "\<not> endsBlockScalar (markedLine l k t)"
proof
  assume "endsBlockScalar (markedLine l k t)"
  then obtain u w where uw: "markedLine l k t = u @ ''|'' @ w" "TrimRightSpace w = []"
    unfolding endsBlockScalar_iff by blast
  from isUUIDString_last [OF assms] have t: "t \<noteq> []" "last t \<in> set ''0123456789abcdef-''"
    by blast+
  from t(1) have lm: "last (markedLine l k t) = last t" by (simp add: markedLine_def)
  show False
  proof (cases "w = []")
    case True
    with uw(1) have "last (markedLine l k t) = CHR ''|''" by simp
    with lm t(2) show False by auto
  next
    case False
    with uw(1) have "last (markedLine l k t) = last w" by simp
    moreover from TrimRightSpace_empty_last [OF uw(2) False] obtain e where
      "e \<in> set whiteSpaceRunes" "last e = last w" by blast
    ultimately show False using lm t(2) whiteSpaceRunes_last_no_hex by metis
  qed
qed

lemma endsBlockScalar_after_prefix:
  assumes "endsBlockScalar (a @ l)" "CHR ''|'' \<notin> set a"
  shows "endsBlockScalar l"
proof -
  from assms(1) obtain u w where uw: "a @ l = u @ (CHR ''|'' # w)" "TrimRightSpace w = []"
    unfolding endsBlockScalar_iff by auto
  from append_eq_append_cases [OF uw(1)]
  show ?thesis
  proof (elim disjE exE conjE)
    fix us assume "a = u @ us" "us @ l = CHR ''|'' # w"
    show ?thesis
    proof (cases us)
      case Nil
      with \<open>us @ l = CHR ''|'' # w\<close> have "l = [] @ ''|'' @ w" by simp
      with uw(2) show ?thesis unfolding endsBlockScalar_iff by blast
    next
      case (Cons c us')
      with \<open>us @ l = CHR ''|'' # w\<close> have "c = CHR ''|''" by simp
      with Cons \<open>a = u @ us\<close> assms(2) show ?thesis by simp
    qed
  next
    fix us assume "a @ us = u" "l = us @ CHR ''|'' # w"
    then have "l = us @ ''|'' @ w" by simp
    with uw(2) show ?thesis unfolding endsBlockScalar_iff by blast
  qed
qed

lemma annotatedLine_endsBlockScalar:
  "endsBlockScalar (annotatedLine k l) \<Longrightarrow> endsBlockScalar l"
proof -
  assume a: "endsBlockScalar (annotatedLine k l)"
  have "annotatedLine k l = (Repeat_space k @ ignoreAnnotation @ [CHR 0x0A]) @ l"
    by (simp add: annotatedLine_def)
  moreover have "CHR ''|'' \<notin> set (Repeat_space k @ ignoreAnnotation @ [CHR 0x0A])"
    by (simp add: Repeat_space_def ignoreAnnotation_def)
  ultimately show ?thesis using a endsBlockScalar_after_prefix by metis
qed

text \<open>
  \<^const>\<open>findIndentation\<close> reads a line only to see whether it ends a block scalar,
  and its leading spaces only if it does, or if it is the line the scan started at.
\<close>

lemma findIndentation_loop_cong:
  assumes "length X = length Y"
    and "\<forall>j<m. endsBlockScalar (X ! j) = endsBlockScalar (Y ! j)"
    and "\<forall>j<m. endsBlockScalar (Y ! j) \<longrightarrow> leadingSpaces (X ! j) = leadingSpaces (Y ! j)"
  shows "m \<le> length Y \<Longrightarrow> findIndentation_loop X (int m - 1) = findIndentation_loop Y (int m - 1)"
  using assms(2,3)
proof (induction m)
  case 0
  show ?case by (simp add: findIndentation_loop_neg)
next
  case (Suc m)
  then have IH: "findIndentation_loop X (int m - 1) = findIndentation_loop Y (int m - 1)"
    by simp
  from Suc.prems have m: "m < length Y" "m < length X" using assms(1) by simp_all
  from Suc.prems have e: "endsBlockScalar (X ! m) = endsBlockScalar (Y ! m)"
    and l: "endsBlockScalar (Y ! m) \<longrightarrow> leadingSpaces (X ! m) = leadingSpaces (Y ! m)"
    by simp_all
  have "int (Suc m) - 1 = int m" by simp
  then show ?case
    using findIndentation_loop_step [OF m(1)] findIndentation_loop_step [OF m(2)] e l IH
    by simp
qed

lemma findIndentation_cong:
  assumes "length X = length Y" "i < length Y"
    and "\<forall>j\<le>i. endsBlockScalar (X ! j) = endsBlockScalar (Y ! j)"
    and "\<forall>j\<le>i. endsBlockScalar (Y ! j) \<longrightarrow> leadingSpaces (X ! j) = leadingSpaces (Y ! j)"
    and "X ! i = Y ! i"
  shows "findIndentation X (int i) = findIndentation Y (int i)"
proof -
  have "findIndentation_loop X (int (Suc i) - 1) = findIndentation_loop Y (int (Suc i) - 1)"
    using assms by (intro findIndentation_loop_cong) (auto simp: less_Suc_eq_le)
  then have "findIndentation_loop X (int i) = findIndentation_loop Y (int i)" by simp
  moreover have "index X (int i) = index Y (int i)"
    using assms(1,2,5) by (simp add: index_def)
  ultimately show ?thesis unfolding findIndentation_def by (simp only:)
qed

text \<open>
  Where no declaration above line \<open>i\<close> ends a block scalar, the indentation
  resolved for line \<open>i\<close> on the slice the marker loop holds is the one resolved on
  the lines as read.
\<close>

lemma resolvedAt_source:
  assumes r: "rewrittenUpTo uuid n L lines (length L)" and i: "i < length L"
    and u: "\<forall>j. isUUIDString (uuid j)"
    and h: "\<forall>j<i. isDeclaration L j \<longrightarrow> \<not> endsBlockScalar (L ! j)"
  shows "findIndentation (take i lines @ drop i L) (int i) = findIndentation L (int i)"
proof (rule findIndentation_cong)
  from r have len: "length lines = length L" by (simp add: rewrittenUpTo_def)
  with i show "length (take i lines @ drop i L) = length L" by simp
  show "i < length L" by (rule i)
  have at: "(take i lines @ drop i L) ! j = (if j < i then lines ! j else L ! j)" if "j \<le> i" for j
    using that i len by (auto simp: nth_append)
  have old: "j < i \<Longrightarrow> \<not> isDeclaration L j \<Longrightarrow> lines ! j = L ! j" for j
    using rewrittenUpTo_other [OF r, of j] i by simp
  have new: "j < i \<Longrightarrow> isDeclaration L j \<Longrightarrow> \<not> endsBlockScalar (lines ! j)" for j
  proof -
    assume j: "j < i" "isDeclaration L j"
    with i have "j < length L" by simp
    from rewrittenUpTo_decl [OF r this this j(2)] obtain k where
      "lines ! j = markedLine (L ! j) k (uuid (n + declRank L j))" by blast
    with u show ?thesis by (simp add: markedLine_not_endsBlockScalar)
  qed
  show "\<forall>j\<le>i. endsBlockScalar ((take i lines @ drop i L) ! j) = endsBlockScalar (L ! j)"
  proof (intro allI impI)
    fix j assume j: "j \<le> i"
    show "endsBlockScalar ((take i lines @ drop i L) ! j) = endsBlockScalar (L ! j)"
    proof (cases "j < i \<and> isDeclaration L j")
      case True
      with new h at [OF j] show ?thesis by simp
    next
      case False
      with old at [OF j] show ?thesis by auto
    qed
  qed
  show "\<forall>j\<le>i. endsBlockScalar (L ! j) \<longrightarrow>
          leadingSpaces ((take i lines @ drop i L) ! j) = leadingSpaces (L ! j)"
  proof (intro allI impI)
    fix j assume j: "j \<le> i" and e: "endsBlockScalar (L ! j)"
    show "leadingSpaces ((take i lines @ drop i L) ! j) = leadingSpaces (L ! j)"
    proof (cases "j < i")
      case True
      with h e have "\<not> isDeclaration L j" by blast
      with old True at [OF j] show ?thesis by simp
    next
      case False
      with at [OF j] show ?thesis by simp
    qed
  qed
  from at [of i] show "(take i lines @ drop i L) ! i = L ! i" by simp
qed

section \<open>The loop over the uncovered entries of a file\<close>


text \<open>
  The invariant of the loop over the uncovered entries of a file: \<open>L\<close> are the
  lines read, \<open>S\<close> the line numbers handled so far, \<open>A\<close> all line numbers the
  loop will handle. A handled line carries its annotation; its indentation is the
  one resolved on the lines as read if none of the lines of \<open>A\<close> ends a block
  scalar.
\<close>

definition annotatedAt :: "string list \<Rightarrow> nat set \<Rightarrow> nat set \<Rightarrow> string list \<Rightarrow> bool" where
  "annotatedAt L A S lines =
     (length lines = length L \<and>
      (\<forall>i<length L.
         if i \<in> S
         then (\<exists>k. lines ! i = annotatedLine k (L ! i) \<and>
                   ((\<forall>j\<in>A. \<not> endsBlockScalar (L ! j)) \<longrightarrow>
                      findIndentation L (int i) = Inr k))
         else lines ! i = L ! i))"

lemma annotatedAt_at:
  assumes "annotatedAt L A S lines" "i < length L"
  shows "if i \<in> S
         then (\<exists>k. lines ! i = annotatedLine k (L ! i) \<and>
                   ((\<forall>j\<in>A. \<not> endsBlockScalar (L ! j)) \<longrightarrow>
                      findIndentation L (int i) = Inr k))
         else lines ! i = L ! i"
  using assms unfolding annotatedAt_def by blast

lemma annotatedAt_in:
  assumes "annotatedAt L A S lines" "i < length L" "i \<in> S"
  shows "\<exists>k. lines ! i = annotatedLine k (L ! i) \<and>
                   ((\<forall>j\<in>A. \<not> endsBlockScalar (L ! j)) \<longrightarrow>
                      findIndentation L (int i) = Inr k)"
  using annotatedAt_at [OF assms(1,2)] assms(3) by simp

lemma annotatedAt_out:
  assumes "annotatedAt L A S lines" "i < length L" "i \<notin> S"
  shows "lines ! i = L ! i"
  using annotatedAt_at [OF assms(1,2)] assms(3) by simp

lemma annotatedAt_length: "annotatedAt L A S lines \<Longrightarrow> length lines = length L"
  by (simp add: annotatedAt_def)

lemma annotatedAt_findIndentation:
  assumes a: "annotatedAt L A S lines" and i: "i < length L" "i \<notin> S" and s: "S \<subseteq> A"
    and h: "\<forall>j\<in>A. \<not> endsBlockScalar (L ! j)"
  shows "findIndentation lines (int i) = findIndentation L (int i)"
proof (rule findIndentation_cong)
  show "length lines = length L" using a by (rule annotatedAt_length)
  show "i < length L" by (rule i)
  have ends: "\<not> endsBlockScalar (lines ! j)" if "j \<in> S" "j < length L" for j
  proof -
    from annotatedAt_in [OF a that(2,1)] obtain k where "lines ! j = annotatedLine k (L ! j)"
      by blast
    moreover from that(1) s h have "\<not> endsBlockScalar (L ! j)" by blast
    ultimately show ?thesis using annotatedLine_endsBlockScalar by metis
  qed
  show "\<forall>j\<le>i. endsBlockScalar (lines ! j) = endsBlockScalar (L ! j)"
  proof (intro allI impI)
    fix j assume "j \<le> i"
    with i have j: "j < length L" by simp
    show "endsBlockScalar (lines ! j) = endsBlockScalar (L ! j)"
    proof (cases "j \<in> S")
      case True
      with ends [OF True j] s h show ?thesis by blast
    next
      case False
      with annotatedAt_out [OF a j] show ?thesis by simp
    qed
  qed
  show "\<forall>j\<le>i. endsBlockScalar (L ! j) \<longrightarrow> leadingSpaces (lines ! j) = leadingSpaces (L ! j)"
  proof (intro allI impI)
    fix j assume "j \<le> i" and e: "endsBlockScalar (L ! j)"
    with i have j: "j < length L" by simp
    from e h s have "j \<notin> S" by blast
    with annotatedAt_out [OF a j] show "leadingSpaces (lines ! j) = leadingSpaces (L ! j)"
      by simp
  qed
  show "lines ! i = L ! i" using a i by (rule annotatedAt_out)
qed

lemma injectException_step:
  assumes a: "annotatedAt L A S lines"
    and r: "0 \<le> Line d" "Line d < int (length L)"
    and n: "nat (Line d) \<notin> S" and s: "insert (nat (Line d)) S \<subseteq> A"
  shows "\<exists>lines'. injectException d lines = Inr lines' \<and>
           annotatedAt L A (insert (nat (Line d)) S) lines'"
proof -
  let ?i = "nat (Line d)"
  from r have i: "?i < length L" and li: "Line d = int ?i" by simp_all
  from a have len: "length lines = length L" by (rule annotatedAt_length)
  from findIndentation_no_panic [of ?i lines] i len obtain k where
    k: "findIndentation lines (int ?i) = Inr k" by auto
  from annotatedAt_out [OF a i n] have same: "lines ! ?i = L ! ?i" .
  have ix: "index lines (Line d) = Inr (L ! ?i)"
    using r len same by (simp add: index_def)
  let ?lines' = "lines[?i := annotatedLine k (L ! ?i)]"
  have res: "injectException d lines = Inr ?lines'"
    using k ix li by (simp add: injectException_def)
  have "annotatedAt L A (insert ?i S) ?lines'"
    unfolding annotatedAt_def
  proof (intro conjI allI impI)
    show "length ?lines' = length L" using len by simp
  next
    fix j assume j: "j < length L"
    show "if j \<in> insert ?i S
         then (\<exists>k. ?lines' ! j = annotatedLine k (L ! j) \<and>
                   ((\<forall>j\<in>A. \<not> endsBlockScalar (L ! j)) \<longrightarrow>
                      findIndentation L (int j) = Inr k))
         else ?lines' ! j = L ! j"
    proof (cases "j = ?i")
      case True
      have "(\<forall>j\<in>A. \<not> endsBlockScalar (L ! j)) \<longrightarrow> findIndentation L (int ?i) = Inr k"
      proof
        assume h: "\<forall>j\<in>A. \<not> endsBlockScalar (L ! j)"
        from s have "S \<subseteq> A" by blast
        from annotatedAt_findIndentation [OF a i n this h] k
        show "findIndentation L (int ?i) = Inr k" by simp
      qed
      with True i len show ?thesis by auto
    next
      case False
      with annotatedAt_at [OF a j] show ?thesis by simp
    qed
  qed
  with res show ?thesis by blast
qed

lemma injectException_loop:
  "annotatedAt L A S lines \<Longrightarrow>
   \<forall>d\<in>set ds. 0 \<le> Line d \<and> Line d < int (length L) \<Longrightarrow>
   distinct (map Line ds) \<Longrightarrow>
   \<forall>d\<in>set ds. nat (Line d) \<notin> S \<Longrightarrow>
   S \<union> (\<lambda>d. nat (Line d)) ` set ds \<subseteq> A \<Longrightarrow>
   \<exists>lines'. forEach injectException ds lines = Inr lines' \<and>
      annotatedAt L A (S \<union> (\<lambda>d. nat (Line d)) ` set ds) lines'"
proof (induction ds arbitrary: S lines)
  case Nil
  then show ?case by simp
next
  case (Cons d ds)
  from Cons.prems have r: "0 \<le> Line d" "Line d < int (length L)"
    and n: "nat (Line d) \<notin> S" and s: "insert (nat (Line d)) S \<subseteq> A" by auto
  from injectException_step [OF Cons.prems(1) r n s] obtain l1 where
    l1: "injectException d lines = Inr l1"
    and a1: "annotatedAt L A (insert (nat (Line d)) S) l1" by blast
  have p2: "\<forall>d\<in>set ds. 0 \<le> Line d \<and> Line d < int (length L)" using Cons.prems(2) by simp
  have p3: "distinct (map Line ds)" using Cons.prems(3) by simp
  have p4: "\<forall>x\<in>set ds. nat (Line x) \<notin> insert (nat (Line d)) S"
  proof (intro ballI notI)
    fix x assume x: "x \<in> set ds" "nat (Line x) \<in> insert (nat (Line d)) S"
    from Cons.prems(4) x(1) have "nat (Line x) \<notin> S" by simp
    with x(2) have "nat (Line x) = nat (Line d)" by blast
    moreover from p2 x(1) have "0 \<le> Line x" by blast
    ultimately have e: "Line x = Line d" using r(1) by simp
    from Cons.prems(3) have "Line d \<notin> Line ` set ds" by simp
    moreover from x(1) have "Line x \<in> Line ` set ds" by (rule imageI)
    ultimately show False using e by (simp only:)
  qed
  have p5: "insert (nat (Line d)) S \<union> (\<lambda>d. nat (Line d)) ` set ds \<subseteq> A"
    using Cons.prems(5) by auto
  from Cons.IH [OF a1 p2 p3 p4 p5] obtain lines' where
    "forEach injectException ds l1 = Inr lines'"
    "annotatedAt L A (insert (nat (Line d)) S \<union> (\<lambda>d. nat (Line d)) ` set ds) lines'" by blast
  moreover have "insert (nat (Line d)) S \<union> (\<lambda>d. nat (Line d)) ` set ds =
     S \<union> (\<lambda>d. nat (Line d)) ` set (d # ds)" by auto
  ultimately show ?case using l1 by simp
qed

section \<open>Grouping by file, and the loop over the files\<close>


lemma byFileLookup_update:
  "byFileLookup (AList.update k v bf) f = (if f = k then v else byFileLookup bf f)"
  by (simp add: byFileLookup_def update_conv')

lemma uncovered_Cons:
  "uncovered ((tok, d) # ids) seenIDs =
     (if tok \<in> set seenIDs then uncovered ids seenIDs else (tok, d) # uncovered ids seenIDs)"
  by (simp add: uncovered_def)

lemma groupByFile_lookup:
  "byFileLookup (groupByFile ids seenIDs bf) f =
     byFileLookup bf f @ filter (\<lambda>d. File d = f) (map snd (uncovered ids seenIDs))"
proof (induction ids seenIDs bf rule: groupByFile.induct)
  case (1 seenIDs bf)
  show ?case by (simp add: uncovered_def)
next
  case (2 tok d ids seenIDs bf)
  show ?case
  proof (cases "tok \<in> set seenIDs")
    case True
    with 2 show ?thesis by (simp add: uncovered_Cons)
  next
    case False
    with 2 show ?thesis by (simp add: uncovered_Cons byFileLookup_update)
  qed
qed

lemma groupByFile_distinct:
  "distinct (map fst bf) \<Longrightarrow> distinct (map fst (groupByFile ids seenIDs bf))"
  by (induction ids seenIDs bf rule: groupByFile.induct) (simp_all add: distinct_update)

lemma groupByFile_keys:
  "fst ` set (groupByFile ids seenIDs bf) =
     fst ` set bf \<union> File ` snd ` set (uncovered ids seenIDs)"
proof (induction ids seenIDs bf rule: groupByFile.induct)
  case (1 seenIDs bf)
  show ?case by (simp add: uncovered_def)
next
  case (2 tok d ids seenIDs bf)
  show ?case
  proof (cases "tok \<in> set seenIDs")
    case True
    with 2 show ?thesis by (simp add: uncovered_Cons)
  next
    case False
    with 2 show ?thesis by (simp add: uncovered_Cons dom_update)
  qed
qed

lemma groupByFile_entry:
  assumes "(f, ds) \<in> set (groupByFile ids seenIDs [])"
  shows "ds = filter (\<lambda>d. File d = f) (map snd (uncovered ids seenIDs))"
proof -
  have "distinct (map fst (groupByFile ids seenIDs []))"
    by (rule groupByFile_distinct) simp
  with assms have "map_of (groupByFile ids seenIDs []) f = Some ds" by simp
  then have "byFileLookup (groupByFile ids seenIDs []) f = ds" by (simp add: byFileLookup_def)
  moreover have "byFileLookup (groupByFile ids seenIDs []) f =
     byFileLookup [] f @ filter (\<lambda>d. File d = f) (map snd (uncovered ids seenIDs))"
    by (rule groupByFile_lookup)
  moreover have "byFileLookup [] f = []" by (simp add: byFileLookup_def)
  ultimately show ?thesis by simp
qed

lemma Join_inject: "Join dir f = Join dir g \<Longrightarrow> f = g"
  by (simp add: Join_def)

text \<open>What the loop over the files of \<open>byFile\<close> leaves of the file system.\<close>

definition exceptFrame :: "string \<Rightarrow> byFile \<Rightarrow> filesystem \<Rightarrow> filesystem \<Rightarrow> bool" where
  "exceptFrame dir bf fs fs' =
     (length fs' = length fs \<and>
      (\<forall>k<length fs. (\<forall>(f, ds)\<in>set bf. Join dir f \<noteq> Path (fs ! k)) \<longrightarrow> fs' ! k = fs ! k) \<and>
      (\<forall>k<length fs. \<forall>(f, ds)\<in>set bf. Join dir f = Path (fs ! k) \<longrightarrow>
         (\<exists>lines'. fs' ! k = (fs ! k)\<lparr>Content := Join_nl lines'\<rparr> \<and>
            annotatedAt (Split_nl (Content (fs ! k)))
              ((\<lambda>d. nat (Line d)) ` set ds) ((\<lambda>d. nat (Line d)) ` set ds) lines')))"

definition exceptLogs :: "byFile \<Rightarrow> string list" where
  "exceptLogs bf = map (\<lambda>(f, ds). ''Injected exceptions into '' @ f) bf"

lemma exceptFiles_result:
  "distinct (map Path fs) \<Longrightarrow> distinct (map fst bf) \<Longrightarrow>
   \<forall>(f, ds)\<in>set bf. \<exists>e\<in>set fs. Path e = Join dir f \<and> \<not> IsDir e \<and>
      (\<forall>d\<in>set ds. 0 \<le> Line d \<and> Line d < int (length (Split_nl (Content e)))) \<and>
      distinct (map Line ds) \<Longrightarrow>
   \<exists>fs'. exceptFiles dir bf (t, fs) =
            ((t\<lparr>Logs := Logs t @ exceptLogs bf\<rparr>, fs'), None) \<and>
          exceptFrame dir bf fs fs'"
proof (induction bf arbitrary: t fs)
  case Nil
  show ?case by (simp add: exceptLogs_def exceptFrame_def)
next
  case (Cons fd bf)
  obtain f ds where fd: "fd = (f, ds)" by (cases fd)
  from Cons.prems(3) fd obtain e where e: "e \<in> set fs" "Path e = Join dir f" "\<not> IsDir e"
    and rng: "\<forall>d\<in>set ds. 0 \<le> Line d \<and> Line d < int (length (Split_nl (Content e)))"
    and dl: "distinct (map Line ds)" by auto
  let ?L = "Split_nl (Content e)"
  let ?A = "(\<lambda>d. nat (Line d)) ` set ds"
  have rd: "ReadFile (Join dir f) fs = Inr (Content e)"
    using ReadFile_entry [OF Cons.prems(1) e(1,3)] e(2) by simp
  have a0: "annotatedAt ?L ?A {} ?L" by (simp add: annotatedAt_def)
  from injectException_loop [OF a0 rng dl, of ] obtain lines1 where
    l1: "forEach injectException ds ?L = Inr lines1" and a1: "annotatedAt ?L ?A ?A lines1"
    by auto
  let ?fs1 = "map (\<lambda>x. if Path x = Join dir f then x\<lparr>Content := Join_nl lines1\<rparr> else x) fs"
  have wr: "WriteFile (Join dir f) (Join_nl lines1) fs = Inr ?fs1"
    using rd by (rule WriteFile_existing)
  let ?t1 = "Logf t (''Injected exceptions into '' @ f)"
  have step: "exceptFiles dir (fd # bf) (t, fs) = exceptFiles dir bf (?t1, ?fs1)"
    using rd l1 wr by (simp add: fd Let_def)
  have paths: "map Path ?fs1 = map Path fs" by (rule written_Path)
  have d1: "distinct (map Path ?fs1)" by (subst paths) (rule Cons.prems(1))
  from Cons.prems(2) fd have nf: "f \<notin> fst ` set bf" and d2: "distinct (map fst bf)" by simp_all
  have p3: "\<forall>(g, gs)\<in>set bf. \<exists>x\<in>set ?fs1. Path x = Join dir g \<and> \<not> IsDir x \<and>
      (\<forall>d\<in>set gs. 0 \<le> Line d \<and> Line d < int (length (Split_nl (Content x)))) \<and>
      distinct (map Line gs)"
  proof (intro ballI, clarify)
    fix g gs assume g: "(g, gs) \<in> set bf"
    with Cons.prems(3) obtain x where x: "x \<in> set fs" "Path x = Join dir g" "\<not> IsDir x"
      "\<forall>d\<in>set gs. 0 \<le> Line d \<and> Line d < int (length (Split_nl (Content x)))"
      "distinct (map Line gs)" by fastforce
    from g nf have "g \<noteq> f" by force
    then have "Join dir g \<noteq> Join dir f" using Join_inject by blast
    with x(2) have "Path x \<noteq> Join dir f" by simp
    with x(1) have "x \<in> set ?fs1" by (rule written_other_mem)
    with x show "\<exists>x\<in>set ?fs1. Path x = Join dir g \<and> \<not> IsDir x \<and>
      (\<forall>d\<in>set gs. 0 \<le> Line d \<and> Line d < int (length (Split_nl (Content x)))) \<and>
      distinct (map Line gs)" by blast
  qed
  from Cons.IH [OF d1 d2 p3, of ?t1] obtain fs' where
    r: "exceptFiles dir bf (?t1, ?fs1) = ((?t1\<lparr>Logs := Logs ?t1 @ exceptLogs bf\<rparr>, fs'), None)"
    and fr: "exceptFrame dir bf ?fs1 fs'" by blast
  have logs: "?t1\<lparr>Logs := Logs ?t1 @ exceptLogs bf\<rparr> = t\<lparr>Logs := Logs t @ exceptLogs (fd # bf)\<rparr>"
    by (simp add: Logf_def exceptLogs_def fd)
  from fr have len: "length fs' = length fs" by (simp add: exceptFrame_def)
  from fr have fr1: "\<And>k. k < length fs \<Longrightarrow> (\<forall>(f, ds)\<in>set bf. Join dir f \<noteq> Path (?fs1 ! k)) \<Longrightarrow>
      fs' ! k = ?fs1 ! k" unfolding exceptFrame_def by simp
  from fr have fr2: "\<And>k g gs. k < length fs \<Longrightarrow> (g, gs) \<in> set bf \<Longrightarrow> Join dir g = Path (?fs1 ! k) \<Longrightarrow>
         (\<exists>lines'. fs' ! k = (?fs1 ! k)\<lparr>Content := Join_nl lines'\<rparr> \<and>
            annotatedAt (Split_nl (Content (?fs1 ! k)))
              ((\<lambda>d. nat (Line d)) ` set gs) ((\<lambda>d. nat (Line d)) ` set gs) lines')"
    unfolding exceptFrame_def by fastforce
  have pk: "Path (?fs1 ! k) = Path (fs ! k)" if "k < length fs" for k
    using that by simp
  have rest_ne: "Join dir g \<noteq> Join dir f" if "(g, gs) \<in> set bf" for g gs
  proof
    assume "Join dir g = Join dir f"
    then have "g = f" by (rule Join_inject)
    with that nf show False by force
  qed
  have "exceptFrame dir (fd # bf) fs fs'"
    unfolding exceptFrame_def
  proof (intro conjI allI impI)
    show "length fs' = length fs" by (rule len)
  next
    fix k assume k: "k < length fs"
      and no: "\<forall>(f, ds)\<in>set (fd # bf). Join dir f \<noteq> Path (fs ! k)"
    from no fd have n1: "Path (fs ! k) \<noteq> Join dir f" by auto
    from no have n2: "\<forall>(f, ds)\<in>set bf. Join dir f \<noteq> Path (?fs1 ! k)"
      using pk [OF k] by auto
    from k n1 have "?fs1 ! k = fs ! k" by (rule written_other_nth)
    with fr1 [OF k n2] show "fs' ! k = fs ! k" by simp
  next
    fix k assume k: "k < length fs"
    show "\<forall>(g, gs)\<in>set (fd # bf). Join dir g = Path (fs ! k) \<longrightarrow>
         (\<exists>lines'. fs' ! k = (fs ! k)\<lparr>Content := Join_nl lines'\<rparr> \<and>
            annotatedAt (Split_nl (Content (fs ! k)))
              ((\<lambda>d. nat (Line d)) ` set gs) ((\<lambda>d. nat (Line d)) ` set gs) lines')"
    proof (intro ballI, clarify)
      fix g gs assume g: "(g, gs) \<in> set (fd # bf)" and m: "Join dir g = Path (fs ! k)"
      show "\<exists>lines'. fs' ! k = (fs ! k)\<lparr>Content := Join_nl lines'\<rparr> \<and>
            annotatedAt (Split_nl (Content (fs ! k)))
              ((\<lambda>d. nat (Line d)) ` set gs) ((\<lambda>d. nat (Line d)) ` set gs) lines'"
      proof (cases "(g, gs) = fd")
        case True
        with fd have gf: "g = f" "gs = ds" by simp_all
        from k have "fs ! k \<in> set fs" by simp
        with e(1,2) m gf Cons.prems(1) have ek: "fs ! k = e"
          by (simp add: distinct_map inj_on_def)
        have "\<forall>(f, ds)\<in>set bf. Join dir f \<noteq> Path (?fs1 ! k)"
          using rest_ne pk [OF k] m gf by auto
        from fr1 [OF k this] have "fs' ! k = ?fs1 ! k" .
        also have "\<dots> = (fs ! k)\<lparr>Content := Join_nl lines1\<rparr>"
          using k m gf by simp
        finally have "fs' ! k = (fs ! k)\<lparr>Content := Join_nl lines1\<rparr>" .
        with a1 ek gf show ?thesis by auto
      next
        case False
        with g have gb: "(g, gs) \<in> set bf" by simp
        from rest_ne [OF gb] m have n1: "Path (fs ! k) \<noteq> Join dir f" by simp
        with k have same: "?fs1 ! k = fs ! k" by (rule written_other_nth)
        from m same have "Join dir g = Path (?fs1 ! k)" by simp
        from fr2 [OF k gb this] same show ?thesis by simp
      qed
    qed
  qed
  with step r logs show ?case by simp
qed

section \<open>The registry of a tree\<close>


text \<open>The path of a file below a directory, and its path relative to the directory.\<close>

lemma Walk_yaml_Join:
  assumes root: "\<forall>e\<in>set fs. Path e = dir \<longrightarrow> IsDir e"
    and e: "e \<in> set (walkEntries dir fs)" and y: "isYamlFile e"
  shows "Join dir (drop (length dir + 1) (Path e)) = Path e"
proof -
  from e have efs: "e \<in> set fs"
    and w: "Path e = dir \<or> HasPrefix (Path e) (dir @ ''/'')" by (auto simp: walkEntries_def)
  from y have "\<not> IsDir e" by (simp add: isYamlFile_iff)
  with root efs have "Path e \<noteq> dir" by blast
  with w have "prefix (dir @ ''/'') (Path e)" by (simp add: HasPrefix_def)
  then obtain r where r: "Path e = (dir @ ''/'') @ r" by (auto simp: prefix_def)
  then have "drop (length dir + 1) (Path e) = r" by simp
  with r show ?thesis by (simp add: Join_def)
qed

lemma fileDecls_mem:
  "r \<in> set (fileDecls dir e) \<longleftrightarrow>
     (\<exists>i<length (Split_nl (Content e)). isDeclaration (Split_nl (Content e)) i \<and>
        r = declRef dir (Path e) (Split_nl (Content e)) i)"
  by (auto simp: fileDecls_def declarations_def)

lemma treeDecls_mem:
  "r \<in> set (treeDecls dir es) \<longleftrightarrow> (\<exists>e\<in>set es. isYamlFile e \<and> r \<in> set (fileDecls dir e))"
  by (auto simp: treeDecls_def)

lemma declRef_simps:
  "File (declRef dir p L i) = drop (length dir + 1) p"
  "Line (declRef dir p L i) = int i"
  "Expr (declRef dir p L i) = TrimSpace (L ! i)"
  by (simp_all add: declRef_def)

text \<open>
  An entry of the registry of a tree names a \<open>.yaml\<close> file of the tree and a
  declaration in it.
\<close>

lemma treeDecls_entry:
  assumes root: "\<forall>e\<in>set fs. Path e = dir \<longrightarrow> IsDir e"
    and r: "r \<in> set (treeDecls dir (walkEntries dir fs))"
  shows "\<exists>e\<in>set (walkEntries dir fs). isYamlFile e \<and> Path e = Join dir (File r) \<and>
           0 \<le> Line r \<and> Line r < int (length (Split_nl (Content e))) \<and>
           isDeclaration (Split_nl (Content e)) (nat (Line r)) \<and>
           Expr r = TrimSpace (Split_nl (Content e) ! nat (Line r))"
proof -
  from r obtain e where e: "e \<in> set (walkEntries dir fs)" "isYamlFile e" "r \<in> set (fileDecls dir e)"
    unfolding treeDecls_mem by blast
  from e(3) obtain i where i: "i < length (Split_nl (Content e))"
    "isDeclaration (Split_nl (Content e)) i" "r = declRef dir (Path e) (Split_nl (Content e)) i"
    unfolding fileDecls_mem by blast
  from Walk_yaml_Join [OF root e(1,2)] i(3) have p: "Path e = Join dir (File r)"
    by (simp add: declRef_simps)
  from i(3) have l: "Line r = int i" by (simp add: declRef_simps)
  from i(3) have x: "Expr r = TrimSpace (Split_nl (Content e) ! i)" by (simp add: declRef_simps)
  from l have n: "nat (Line r) = i" by simp
  have "isYamlFile e \<and> Path e = Join dir (File r) \<and>
           0 \<le> Line r \<and> Line r < int (length (Split_nl (Content e))) \<and>
           isDeclaration (Split_nl (Content e)) (nat (Line r)) \<and>
           Expr r = TrimSpace (Split_nl (Content e) ! nat (Line r))"
    unfolding n using e(2) p l i(1,2) x by simp
  with e(1) show ?thesis by blast
qed

lemma fileDecls_distinct_Line: "distinct (map Line (fileDecls dir e))"
proof -
  have "map Line (fileDecls dir e) = map int (declarations (Split_nl (Content e)))"
    by (simp add: fileDecls_def declRef_def comp_def)
  moreover have "distinct (declarations (Split_nl (Content e)))"
    by (simp add: declarations_def)
  ultimately show ?thesis by (simp add: distinct_map)
qed

lemma fileDecls_File: "r \<in> set (fileDecls dir e) \<Longrightarrow> File r = drop (length dir + 1) (Path e)"
  by (auto simp: fileDecls_mem declRef_simps)

lemma treeDecls_distinct_aux:
  "distinct (map Path es) \<Longrightarrow>
   \<forall>e\<in>set es. isYamlFile e \<longrightarrow> Join dir (drop (length dir + 1) (Path e)) = Path e \<Longrightarrow>
   distinct (map (\<lambda>r. (File r, Line r)) (treeDecls dir es))"
proof (induction es)
  case Nil
  show ?case by (simp add: treeDecls_def)
next
  case (Cons e es)
  then have IH: "distinct (map (\<lambda>r. (File r, Line r)) (treeDecls dir es))" by simp
  show ?case
  proof (cases "isYamlFile e")
    case False
    then have "treeDecls dir (e # es) = treeDecls dir es" by (simp add: treeDecls_def)
    with IH show ?thesis by simp
  next
    case True
    then have td: "treeDecls dir (e # es) = fileDecls dir e @ treeDecls dir es"
      by (simp add: treeDecls_def)
    have d1: "distinct (map (\<lambda>r. (File r, Line r)) (fileDecls dir e))"
    proof -
      have "distinct (map (snd \<circ> (\<lambda>r. (File r, Line r))) (fileDecls dir e))"
        using fileDecls_distinct_Line [of dir e] by (simp add: comp_def)
      then have "distinct (fileDecls dir e)"
        and "inj_on (snd \<circ> (\<lambda>r. (File r, Line r))) (set (fileDecls dir e))"
        by (simp_all only: distinct_map)
      then have "distinct (fileDecls dir e)"
        and "inj_on (\<lambda>r. (File r, Line r)) (set (fileDecls dir e))"
        by (auto intro: inj_on_imageI2)
      then show ?thesis by (simp only: distinct_map)
    qed
    have dis: "set (map (\<lambda>r. (File r, Line r)) (fileDecls dir e)) \<inter>
               set (map (\<lambda>r. (File r, Line r)) (treeDecls dir es)) = {}"
    proof (rule ccontr)
      assume "\<not> ?thesis"
      then obtain r r' where r: "r \<in> set (fileDecls dir e)" "r' \<in> set (treeDecls dir es)"
        "File r = File r'" by auto
      from r(2) obtain e' where e': "e' \<in> set es" "isYamlFile e'" "r' \<in> set (fileDecls dir e')"
        unfolding treeDecls_mem by blast
      from r(1) have f1: "File r = drop (length dir + 1) (Path e)" by (rule fileDecls_File)
      from e'(3) have f2: "File r' = drop (length dir + 1) (Path e')" by (rule fileDecls_File)
      from Cons.prems(2) True have j1: "Join dir (drop (length dir + 1) (Path e)) = Path e"
        by simp
      from Cons.prems(2) e'(1,2) have j2: "Join dir (drop (length dir + 1) (Path e')) = Path e'"
        by simp
      from f1 f2 r(3) j1 j2 have "Path e = Path e'" by (simp only:)
      moreover from Cons.prems(1) have "Path e \<notin> Path ` set es" by simp
      moreover from e'(1) have "Path e' \<in> Path ` set es" by (rule imageI)
      ultimately show False by metis
    qed
    from d1 IH dis show ?thesis unfolding td by (simp only: map_append distinct_append)
  qed
qed

lemma treeDecls_distinct:
  assumes dp: "distinct (map Path fs)"
    and root: "\<forall>e\<in>set fs. Path e = dir \<longrightarrow> IsDir e"
  shows "distinct (map (\<lambda>r. (File r, Line r)) (treeDecls dir (walkEntries dir fs)))"
proof (rule treeDecls_distinct_aux)
  show "distinct (map Path (walkEntries dir fs))"
    using dp unfolding walkEntries_def by (rule distinct_map_filter)
  show "\<forall>e\<in>set (walkEntries dir fs). isYamlFile e \<longrightarrow>
          Join dir (drop (length dir + 1) (Path e)) = Path e"
    using Walk_yaml_Join [OF root] by blast
qed


section \<open>What exception mode does to a file\<close>

text \<open>No declaration of the lines \<open>L\<close> ends a block scalar.\<close>

definition plainDeclarations :: "string list \<Rightarrow> bool" where
  "plainDeclarations L = list_all (\<lambda>j. \<not> endsBlockScalar (L ! j)) (declarations L)"

text \<open>
  The line numbers of the uncovered entries of the registry that name the file of
  the entry \<open>e\<close>, for a chart at \<open>dir\<close>.
\<close>

definition uncoveredLines :: "string \<Rightarrow> registry \<Rightarrow> string list \<Rightarrow> entry \<Rightarrow> nat list" where
  "uncoveredLines dir ids seenIDs e =
     map (\<lambda>(tok, r). nat (Line r))
       (filter (\<lambda>(tok, r). Join dir (File r) = Path e) (uncovered ids seenIDs))"

text \<open>
  Every run of the marker loop over the lines \<open>L\<close> indents the marker of line
  \<open>i\<close> by \<open>n\<close> spaces.
\<close>

definition markerIndentationIs :: "string list \<Rightarrow> nat \<Rightarrow> nat \<Rightarrow> bool" where
  "markerIndentationIs L i n =
     (\<forall>uuid n0 ml. (\<forall>j. isUUIDString (uuid j)) \<and> rewrittenUpTo uuid n0 L ml (length L) \<longrightarrow>
        findIndentation (take i ml @ drop i L) (int i) = Inr n)"

text \<open>
  The entry \<open>e'\<close> that exception mode leaves in the place of the entry \<open>e\<close>: the
  same entry if no uncovered declaration names it; otherwise its lines, each
  uncovered declaration with the annotation line in front. Where no declaration of
  the file ends a block scalar, the annotation is indented as
  \<^const>\<open>findIndentation\<close> resolves on the lines of the file, which is how the marker
  of that line is indented.
\<close>

definition exceptedEntry :: "string \<Rightarrow> registry \<Rightarrow> string list \<Rightarrow> entry \<Rightarrow> entry \<Rightarrow> bool" where
  "exceptedEntry dir ids seenIDs e e' =
     (let L = Split_nl (Content e); U = uncoveredLines dir ids seenIDs e in
      if U = [] then e' = e
      else (\<exists>lines'. e' = e\<lparr>Content := Join_nl lines'\<rparr> \<and> length lines' = length L \<and>
              (\<forall>i<length L.
                 if i \<in> set U
                 then (\<exists>n. lines' ! i = annotatedLine n (L ! i) \<and>
                         (plainDeclarations L \<longrightarrow>
                            findIndentation L (int i) = Inr n \<and> markerIndentationIs L i n))
                 else lines' ! i = L ! i)))"

text \<open>
  Lines 59 to 66 of \<^verbatim>\<open>Lint\<close>: the mode decides between
  \<^verbatim>\<open>injectExceptions\<close> and \<^verbatim>\<open>verifyCoverage\<close>. An error
  \<^verbatim>\<open>injectExceptions\<close> returns is reported; a panic ends the run.
\<close>

definition errorString :: "error \<Rightarrow> string" where
  "errorString e =
     (case e of
        ReadError p \<Rightarrow> ''open '' @ p @ '': no such file or directory''
      | WriteError p \<Rightarrow> ''open '' @ p @ '': is a directory''
      | LstatError p \<Rightarrow> ''lstat '' @ p @ '': no such file or directory''
      | IndexOutOfRange \<Rightarrow> ''runtime error: index out of range''
      | SliceOutOfRange \<Rightarrow> ''runtime error: slice bounds out of range'')"

definition reconcile ::
  "T \<Rightarrow> options \<Rightarrow> registry \<Rightarrow> string list \<Rightarrow> filesystem \<Rightarrow> error + T \<times> filesystem" where
  "reconcile t opts ids seenIDs fs =
     (if WriteExceptions opts then
        (case injectExceptions t opts ids seenIDs fs of
           ((t', fs'), None) \<Rightarrow> Inr (t', fs')
         | ((t', fs'), Some IndexOutOfRange) \<Rightarrow> Inl IndexOutOfRange
         | ((t', fs'), Some SliceOutOfRange) \<Rightarrow> Inl SliceOutOfRange
         | ((t', fs'), Some err) \<Rightarrow>
             Inr (Errorf t' (''injecting exceptions: '' @ errorString err), fs'))
      else Inr (verifyCoverage t ids seenIDs, fs))"

subsection \<open>Exception mode on the registry of a tree\<close>

lemma plainDeclarations_iff:
  "plainDeclarations L = (\<forall>j<length L. isDeclaration L j \<longrightarrow> \<not> endsBlockScalar (L ! j))"
  by (auto simp: plainDeclarations_def declarations_def list_all_iff)

lemma uncoveredLines_mem:
  "i \<in> set (uncoveredLines dir ids seenIDs e) \<longleftrightarrow>
     (\<exists>tok r. (tok, r) \<in> set (uncovered ids seenIDs) \<and> Join dir (File r) = Path e \<and>
        i = nat (Line r))"
  by (auto simp: uncoveredLines_def)

lemma uncovered_snd_subset: "snd ` set (uncovered ids seenIDs) \<subseteq> snd ` set ids"
  by (auto simp: uncovered_def)

lemma distinct_map_uncovered:
  "distinct (map g (map snd ids)) \<Longrightarrow> distinct (map g (map snd (uncovered ids seenIDs)))"
  unfolding uncovered_def map_map by (rule distinct_map_filter)

lemma distinct_Line_of_key:
  assumes "distinct (map (\<lambda>r. (File r, Line r)) rs)"
  shows "distinct (map Line (filter (\<lambda>d. File d = f) rs))"
proof -
  from assms have "distinct (map (\<lambda>r. (File r, Line r)) (filter (\<lambda>d. File d = f) rs))"
    by (rule distinct_map_filter)
  then have d: "distinct (filter (\<lambda>d. File d = f) rs)"
    and i: "inj_on (\<lambda>r. (File r, Line r)) (set (filter (\<lambda>d. File d = f) rs))"
    by (simp_all only: distinct_map)
  have "inj_on Line (set (filter (\<lambda>d. File d = f) rs))"
  proof (rule inj_onI)
    fix x y assume x: "x \<in> set (filter (\<lambda>d. File d = f) rs)"
      and y: "y \<in> set (filter (\<lambda>d. File d = f) rs)" and l: "Line x = Line y"
    from x y have "File x = File y" by simp
    with l have "(\<lambda>r. (File r, Line r)) x = (\<lambda>r. (File r, Line r)) y" by simp
    from inj_onD [OF i this x y] show "x = y" .
  qed
  with d show ?thesis by (simp only: distinct_map)
qed

lemma entry_by_Path:
  "distinct (map Path fs) \<Longrightarrow> x \<in> set fs \<Longrightarrow> y \<in> set fs \<Longrightarrow> Path x = Path y \<Longrightarrow> x = y"
  by (simp add: distinct_map inj_on_def)

text \<open>The files of \<open>byFile\<close>, for the registry of a tree.\<close>

text \<open>
  The registry is a Go map: the list that stands for it holds its entries in
  the order in which a \<^verbatim>\<open>range\<close> loop happens to visit them, which is any
  order. A registry holds the declarations of a tree when it holds them in some
  order.
\<close>

lemma registry_distinct:
  assumes dp: "distinct (map Path fs)"
    and root: "\<forall>e\<in>set fs. Path e = dir \<longrightarrow> IsDir e"
    and reg: "mset (map snd ids) = mset (treeDecls dir (walkEntries dir fs))"
  shows "distinct (map (\<lambda>r. (File r, Line r)) (map snd ids))"
proof -
  have "mset (map (\<lambda>r. (File r, Line r)) (map snd ids)) =
      image_mset (\<lambda>r. (File r, Line r)) (mset (map snd ids))" by (rule mset_map)
  also have "\<dots> = image_mset (\<lambda>r. (File r, Line r)) (mset (treeDecls dir (walkEntries dir fs)))"
    by (simp only: reg)
  also have "\<dots> = mset (map (\<lambda>r. (File r, Line r)) (treeDecls dir (walkEntries dir fs)))"
    by (rule mset_map [symmetric])
  finally have "mset (map (\<lambda>r. (File r, Line r)) (map snd ids)) =
      mset (map (\<lambda>r. (File r, Line r)) (treeDecls dir (walkEntries dir fs)))" .
  moreover have "distinct (map (\<lambda>r. (File r, Line r)) (treeDecls dir (walkEntries dir fs)))"
    using dp root by (rule treeDecls_distinct)
  ultimately show ?thesis using mset_eq_imp_distinct_iff by blast
qed

lemma byFile_wellformed:
  assumes dp: "distinct (map Path fs)"
    and root: "\<forall>e\<in>set fs. Path e = dir \<longrightarrow> IsDir e"
    and reg: "mset (map snd ids) = mset (treeDecls dir (walkEntries dir fs))"
    and m: "(f, ds) \<in> set (groupByFile ids seenIDs [])"
  shows "\<exists>e\<in>set fs. Path e = Join dir f \<and> \<not> IsDir e \<and>
      (\<forall>d\<in>set ds. 0 \<le> Line d \<and> Line d < int (length (Split_nl (Content e)))) \<and>
      distinct (map Line ds) \<and>
      (\<forall>d\<in>set ds. isDeclaration (Split_nl (Content e)) (nat (Line d))) \<and>
      set (uncoveredLines dir ids seenIDs e) = (\<lambda>d. nat (Line d)) ` set ds \<and> ds \<noteq> []"
proof -
  let ?unc = "map snd (uncovered ids seenIDs)"
  from m have ds: "ds = filter (\<lambda>d. File d = f) ?unc" by (rule groupByFile_entry)
  from m have "f \<in> fst ` set (groupByFile ids seenIDs [])" by force
  then have "f \<in> File ` snd ` set (uncovered ids seenIDs)" by (simp add: groupByFile_keys)
  then obtain d0 where d0: "d0 \<in> set ?unc" "File d0 = f" by auto
  with ds have ne: "ds \<noteq> []" by (auto simp: filter_empty_conv)
  have tree: "d \<in> set (treeDecls dir (walkEntries dir fs))" if "d \<in> set ?unc" for d
  proof -
    from that have "d \<in> snd ` set ids" using uncovered_snd_subset by fastforce
    then have "d \<in> set (map snd ids)" by simp
    with mset_eq_setD [OF reg] show ?thesis by simp
  qed
  from treeDecls_entry [OF root tree [OF d0(1)]] d0(2) obtain e where
    e: "e \<in> set (walkEntries dir fs)" "isYamlFile e" "Path e = Join dir f" by auto
  from e(1) have efs: "e \<in> set fs" using Walk_subset by blast
  from e(2) have nd: "\<not> IsDir e" by (simp add: isYamlFile_iff)
  have each: "0 \<le> Line d \<and> Line d < int (length (Split_nl (Content e))) \<and>
      isDeclaration (Split_nl (Content e)) (nat (Line d))" if "d \<in> set ds" for d
  proof -
    from that ds have d: "d \<in> set ?unc" "File d = f" by simp_all
    from treeDecls_entry [OF root tree [OF d(1)]] d(2) obtain e' where
      e': "e' \<in> set (walkEntries dir fs)" "Path e' = Join dir f"
      "0 \<le> Line d" "Line d < int (length (Split_nl (Content e')))"
      "isDeclaration (Split_nl (Content e')) (nat (Line d))" by auto
    from e'(1) have "e' \<in> set fs" using Walk_subset by blast
    with efs e'(2) e(3) have "e' = e" using entry_by_Path [OF dp] by simp
    with e' show ?thesis by simp
  qed
  have dl: "distinct (map Line ds)"
  proof -
    have "distinct (map (\<lambda>r. (File r, Line r)) (map snd ids))"
      using dp root reg by (rule registry_distinct)
    then have "distinct (map (\<lambda>r. (File r, Line r)) ?unc)" by (rule distinct_map_uncovered)
    then show ?thesis unfolding ds by (rule distinct_Line_of_key)
  qed
  have u: "set (uncoveredLines dir ids seenIDs e) = (\<lambda>d. nat (Line d)) ` set ds"
  proof (intro set_eqI iffI)
    fix i assume "i \<in> set (uncoveredLines dir ids seenIDs e)"
    then obtain tok r where r: "(tok, r) \<in> set (uncovered ids seenIDs)"
      "Join dir (File r) = Path e" "i = nat (Line r)" unfolding uncoveredLines_mem by blast
    from r(2) e(3) have "File r = f" using Join_inject by simp
    moreover from r(1) have "r \<in> set ?unc" by force
    ultimately have "r \<in> set ds" using ds by simp
    with r(3) show "i \<in> (\<lambda>d. nat (Line d)) ` set ds" by blast
  next
    fix i assume "i \<in> (\<lambda>d. nat (Line d)) ` set ds"
    then obtain d where d: "d \<in> set ds" "i = nat (Line d)" by blast
    with ds have "d \<in> set ?unc" "File d = f" by simp_all
    then obtain tok where "(tok, d) \<in> set (uncovered ids seenIDs)" by auto
    with \<open>File d = f\<close> e(3) d(2) show "i \<in> set (uncoveredLines dir ids seenIDs e)"
      unfolding uncoveredLines_mem by auto
  qed
  from efs e(3) nd each dl u ne show ?thesis by blast
qed

lemma annotatedAt_excepted:
  assumes a: "annotatedAt L A A lines'" and ne: "U \<noteq> []" and u: "set U = A"
    and decl: "\<forall>i\<in>A. i < length L \<and> isDeclaration L i"
  shows "\<exists>lines''. e\<lparr>Content := Join_nl lines'\<rparr> = e\<lparr>Content := Join_nl lines''\<rparr> \<and>
           length lines'' = length L \<and>
              (\<forall>i<length L.
                 if i \<in> set U
                 then (\<exists>n. lines'' ! i = annotatedLine n (L ! i) \<and>
                         (plainDeclarations L \<longrightarrow>
                            findIndentation L (int i) = Inr n \<and> markerIndentationIs L i n))
                 else lines'' ! i = L ! i)"
proof (intro exI [of _ lines'] conjI allI impI)
  show "e\<lparr>Content := Join_nl lines'\<rparr> = e\<lparr>Content := Join_nl lines'\<rparr>" by simp
  show "length lines' = length L" using a by (rule annotatedAt_length)
next
  fix i assume i: "i < length L"
  show "if i \<in> set U
         then (\<exists>n. lines' ! i = annotatedLine n (L ! i) \<and>
                 (plainDeclarations L \<longrightarrow>
                    findIndentation L (int i) = Inr n \<and> markerIndentationIs L i n))
         else lines' ! i = L ! i"
  proof (cases "i \<in> A")
    case False
    with annotatedAt_out [OF a i] u show ?thesis by simp
  next
    case True
    from annotatedAt_in [OF a i True] obtain n where
      n: "lines' ! i = annotatedLine n (L ! i)"
      "(\<forall>j\<in>A. \<not> endsBlockScalar (L ! j)) \<longrightarrow> findIndentation L (int i) = Inr n" by blast
    have "plainDeclarations L \<longrightarrow>
            findIndentation L (int i) = Inr n \<and> markerIndentationIs L i n"
    proof
      assume p: "plainDeclarations L"
      then have h: "\<forall>j<length L. isDeclaration L j \<longrightarrow> \<not> endsBlockScalar (L ! j)"
        by (simp add: plainDeclarations_iff)
      with decl have "\<forall>j\<in>A. \<not> endsBlockScalar (L ! j)" by blast
      with n(2) have f: "findIndentation L (int i) = Inr n" by blast
      have "markerIndentationIs L i n"
        unfolding markerIndentationIs_def
      proof (intro allI impI)
        fix uuid n0 ml
        assume "(\<forall>j. isUUIDString (uuid j)) \<and> rewrittenUpTo uuid n0 L ml (length L)"
        then have uu: "\<forall>j. isUUIDString (uuid j)"
          and r: "rewrittenUpTo uuid n0 L ml (length L)" by blast+
        from h i have "\<forall>j<i. isDeclaration L j \<longrightarrow> \<not> endsBlockScalar (L ! j)" by simp
        from resolvedAt_source [OF r i uu this] f
        show "findIndentation (take i ml @ drop i L) (int i) = Inr n" by simp
      qed
      with f show "findIndentation L (int i) = Inr n \<and> markerIndentationIs L i n" by blast
    qed
    with n(1) True u show ?thesis by auto
  qed
qed

text \<open>What \<^verbatim>\<open>injectExceptions\<close> does to the registry of a tree.\<close>

lemma injectExceptions_entries:
  assumes dp: "distinct (map Path fs)"
    and root: "\<forall>e\<in>set fs. Path e = ChartDir opts \<longrightarrow> IsDir e"
    and reg: "mset (map snd ids) = mset (treeDecls (ChartDir opts) (walkEntries (ChartDir opts) fs))"
  shows "\<exists>t' fs'.
     injectExceptions t opts ids seenIDs fs = ((t', fs'), None) \<and>
     (WriteExceptions opts \<longrightarrow> reconcile t opts ids seenIDs fs = Inr (t', fs')) \<and>
     Errors t' = Errors t \<and>
     length fs' = length fs \<and>
     (\<forall>k<length fs. exceptedEntry (ChartDir opts) ids seenIDs (fs ! k) (fs' ! k))"
proof -
  let ?dir = "ChartDir opts"
  let ?bf = "groupByFile ids seenIDs []"
  have dk: "distinct (map fst ?bf)" by (rule groupByFile_distinct) simp
  note wf = byFile_wellformed [OF dp root reg]
  have pre: "\<forall>(f, ds)\<in>set ?bf. \<exists>e\<in>set fs. Path e = Join ?dir f \<and> \<not> IsDir e \<and>
      (\<forall>d\<in>set ds. 0 \<le> Line d \<and> Line d < int (length (Split_nl (Content e)))) \<and>
      distinct (map Line ds)"
  proof (intro ballI, clarify)
    fix f ds assume "(f, ds) \<in> set ?bf"
    from wf [OF this] show "\<exists>e\<in>set fs. Path e = Join ?dir f \<and> \<not> IsDir e \<and>
      (\<forall>d\<in>set ds. 0 \<le> Line d \<and> Line d < int (length (Split_nl (Content e)))) \<and>
      distinct (map Line ds)" by blast
  qed
  from exceptFiles_result [OF dp dk pre, of t] obtain fs' where
    r: "exceptFiles ?dir ?bf (t, fs) = ((t\<lparr>Logs := Logs t @ exceptLogs ?bf\<rparr>, fs'), None)"
    and fr: "exceptFrame ?dir ?bf fs fs'" by blast
  let ?t' = "t\<lparr>Logs := Logs t @ exceptLogs ?bf\<rparr>"
  have res: "injectExceptions t opts ids seenIDs fs = ((?t', fs'), None)"
    using r by (simp add: injectExceptions_def)
  then have rec: "WriteExceptions opts \<longrightarrow> reconcile t opts ids seenIDs fs = Inr (?t', fs')"
    by (simp add: reconcile_def)
  have err: "Errors ?t' = Errors t" by simp
  from fr have len: "length fs' = length fs" by (simp add: exceptFrame_def)
  from fr have fr1: "\<And>k. k < length fs \<Longrightarrow> (\<forall>(f, ds)\<in>set ?bf. Join ?dir f \<noteq> Path (fs ! k)) \<Longrightarrow>
      fs' ! k = fs ! k" unfolding exceptFrame_def by simp
  from fr have fr2: "\<And>k g gs. k < length fs \<Longrightarrow> (g, gs) \<in> set ?bf \<Longrightarrow> Join ?dir g = Path (fs ! k) \<Longrightarrow>
         (\<exists>lines'. fs' ! k = (fs ! k)\<lparr>Content := Join_nl lines'\<rparr> \<and>
            annotatedAt (Split_nl (Content (fs ! k)))
              ((\<lambda>d. nat (Line d)) ` set gs) ((\<lambda>d. nat (Line d)) ` set gs) lines')"
    unfolding exceptFrame_def by fastforce
  have ent: "exceptedEntry ?dir ids seenIDs (fs ! k) (fs' ! k)" if k: "k < length fs" for k
  proof (cases "\<exists>(f, ds)\<in>set ?bf. Join ?dir f = Path (fs ! k)")
    case False
    then have no: "\<forall>(f, ds)\<in>set ?bf. Join ?dir f \<noteq> Path (fs ! k)" by blast
    from fr1 [OF k this] have same: "fs' ! k = fs ! k" .
    have "uncoveredLines ?dir ids seenIDs (fs ! k) = []"
    proof (rule ccontr)
      assume "uncoveredLines ?dir ids seenIDs (fs ! k) \<noteq> []"
      then obtain i where "i \<in> set (uncoveredLines ?dir ids seenIDs (fs ! k))"
        by (cases "uncoveredLines ?dir ids seenIDs (fs ! k)") auto
      then obtain tok r where r: "(tok, r) \<in> set (uncovered ids seenIDs)"
        "Join ?dir (File r) = Path (fs ! k)" unfolding uncoveredLines_mem by blast
      from r(1) have "File r \<in> File ` snd ` set (uncovered ids seenIDs)" by force
      then have "File r \<in> fst ` set ?bf" by (simp add: groupByFile_keys)
      then obtain ds where "(File r, ds) \<in> set ?bf" by auto
      with no r(2) show False by blast
    qed
    with same show ?thesis by (simp add: exceptedEntry_def)
  next
    case True
    then obtain f ds where m: "(f, ds) \<in> set ?bf" "Join ?dir f = Path (fs ! k)" by blast
    from wf [OF m(1)] obtain e where e: "e \<in> set fs" "Path e = Join ?dir f"
      "\<forall>d\<in>set ds. 0 \<le> Line d \<and> Line d < int (length (Split_nl (Content e)))"
      "\<forall>d\<in>set ds. isDeclaration (Split_nl (Content e)) (nat (Line d))"
      "set (uncoveredLines ?dir ids seenIDs e) = (\<lambda>d. nat (Line d)) ` set ds" "ds \<noteq> []"
      by blast
    from k have "fs ! k \<in> set fs" by simp
    with e(1,2) m(2) have ek: "e = fs ! k" using entry_by_Path [OF dp] by simp
    let ?L = "Split_nl (Content (fs ! k))"
    let ?A = "(\<lambda>d. nat (Line d)) ` set ds"
    let ?U = "uncoveredLines ?dir ids seenIDs (fs ! k)"
    from fr2 [OF k m] obtain lines' where
      l: "fs' ! k = (fs ! k)\<lparr>Content := Join_nl lines'\<rparr>" and a: "annotatedAt ?L ?A ?A lines'"
      by blast
    from e(5,6) ek have une: "?U \<noteq> []" by auto
    from e(5) ek have us: "set ?U = ?A" by simp
    have decl: "\<forall>i\<in>?A. i < length ?L \<and> isDeclaration ?L i"
      using e(3,4) ek by auto
    from annotatedAt_excepted [OF a une us decl, of "fs ! k"] l une
    show ?thesis unfolding exceptedEntry_def Let_def by simp
  qed
  from res rec err len ent show ?thesis by blast
qed

definition exampleOptions :: options where
  "exampleOptions =
     Options False True 4 ''/chart'' ''/chart/fixtures'' ''/chart/policies'' [] []"

definition blockContent :: string where
  "blockContent = ''a: {{ if x }} |'' @ [CHR 0x0A] @ ''{{ if y }}''"

definition blockChart :: "string \<Rightarrow> filesystem" where
  "blockChart dir =
     [\<lparr>Path = dir, IsDir = True, Content = []\<rparr>,
      \<lparr>Path = dir @ ''/t.yaml'', IsDir = False, Content = blockContent\<rparr>]"

definition blockIds :: registry where
  "blockIds =
     [(exampleUUID 0, \<lparr>File = ''t.yaml'', Line = 0, Expr = ''a: {{ if x }} |''\<rparr>),
      (exampleUUID 1, \<lparr>File = ''t.yaml'', Line = 1, Expr = ''{{ if y }}''\<rparr>)]"

text \<open>
  Claim C3 at a file whose first declaration line ends a block scalar: the two
  lines \<open>a: {{ if x }} |\<close> and \<open>{{ if y }}\<close>. The indentation
  \<^verbatim>\<open>findIndentation\<close> resolves for the second line on the lines of the file is
  2, the line above it ending with \<open>|\<close>. \<^verbatim>\<open>injectComments\<close> writes the
  marker of the second declaration without indentation: it calls
  \<^verbatim>\<open>findIndentation\<close> on the slice it is rewriting in place, where the line
  above now ends with the token of its own marker.
\<close>

theorem injectComments_block_scalar_marker:
  "Split_nl blockContent = [''a: {{ if x }} |'', ''{{ if y }}'']
   \<and> declarations (Split_nl blockContent) = [0, 1]
   \<and> findIndentation (Split_nl blockContent) 1 = Inr 2
   \<and> injectComments exampleUUID ''/tmp/chart'' (blockChart ''/tmp/chart'') =
       Inr ([\<lparr>Path = ''/tmp/chart'', IsDir = True, Content = []\<rparr>,
             \<lparr>Path = ''/tmp/chart/t.yaml'', IsDir = False,
              Content = ''a: {{ if x }} |'' @ [CHR 0x0A] @
                        ''  # helmlint: '' @ exampleUUID 0 @ [CHR 0x0A] @
                        ''{{ if y }}'' @ [CHR 0x0A] @
                        ''# helmlint: '' @ exampleUUID 1\<rparr>], blockIds)"
  by code_simp

text \<open>
  Claim C6 at the same file, in the original chart tree. With the second
  declaration uncovered, \<^verbatim>\<open>injectExceptions\<close> indents its annotation by two
  spaces, where the marker of the same declaration has no indentation (the
  registry \<^const>\<open>blockIds\<close> is the one \<^verbatim>\<open>injectComments\<close> returns for the copy
  of the chart). With both declarations uncovered, the indentation of the second
  annotation depends on the order in which the loop meets the two entries, since
  \<^verbatim>\<open>injectExceptions\<close> too rewrites the slice it resolves the indentation on:
  four spaces when the first declaration is annotated first, two otherwise.
\<close>

theorem injectExceptions_block_scalar_annotation:
  "map_sum id snd (injectComments exampleUUID ''/tmp/chart'' (blockChart ''/tmp/chart'')) =
     Inr blockIds
   \<and> map_sum id (\<lambda>(fs', ids). map Content fs')
        (injectComments exampleUUID ''/tmp/chart'' (blockChart ''/tmp/chart'')) =
       Inr [[], ''a: {{ if x }} |'' @ [CHR 0x0A] @
                ''  # helmlint: '' @ exampleUUID 0 @ [CHR 0x0A] @
                ''{{ if y }}'' @ [CHR 0x0A] @
                ''# helmlint: '' @ exampleUUID 1]
   \<and> injectExceptions \<lparr>Errors = [], Logs = []\<rparr> exampleOptions blockIds [exampleUUID 0]
         (blockChart ''/chart'') =
       ((\<lparr>Errors = [], Logs = [''Injected exceptions into t.yaml'']\<rparr>,
         [\<lparr>Path = ''/chart'', IsDir = True, Content = []\<rparr>,
          \<lparr>Path = ''/chart/t.yaml'', IsDir = False,
           Content = ''a: {{ if x }} |'' @ [CHR 0x0A] @
                     ''  {{/* helmlint:ignore */}}'' @ [CHR 0x0A] @
                     ''{{ if y }}''\<rparr>]), None)
   \<and> injectExceptions \<lparr>Errors = [], Logs = []\<rparr> exampleOptions blockIds []
         (blockChart ''/chart'') =
       ((\<lparr>Errors = [], Logs = [''Injected exceptions into t.yaml'']\<rparr>,
         [\<lparr>Path = ''/chart'', IsDir = True, Content = []\<rparr>,
          \<lparr>Path = ''/chart/t.yaml'', IsDir = False,
           Content = ''  {{/* helmlint:ignore */}}'' @ [CHR 0x0A] @
                     ''a: {{ if x }} |'' @ [CHR 0x0A] @
                     ''    {{/* helmlint:ignore */}}'' @ [CHR 0x0A] @
                     ''{{ if y }}''\<rparr>]), None)
   \<and> injectExceptions \<lparr>Errors = [], Logs = []\<rparr> exampleOptions (rev blockIds) []
         (blockChart ''/chart'') =
       ((\<lparr>Errors = [], Logs = [''Injected exceptions into t.yaml'']\<rparr>,
         [\<lparr>Path = ''/chart'', IsDir = True, Content = []\<rparr>,
          \<lparr>Path = ''/chart/t.yaml'', IsDir = False,
           Content = ''  {{/* helmlint:ignore */}}'' @ [CHR 0x0A] @
                     ''a: {{ if x }} |'' @ [CHR 0x0A] @
                     ''  {{/* helmlint:ignore */}}'' @ [CHR 0x0A] @
                     ''{{ if y }}''\<rparr>]), None)"
  by code_simp

text \<open>A registry of the example chart.\<close>

definition exampleIds :: registry where
  "exampleIds =
     [(exampleUUID 0, \<lparr>File = ''templates/cm.yaml'', Line = 1, Expr = ''{{ if .Values.a }}''\<rparr>),
      (exampleUUID 1, \<lparr>File = ''templates/cm.yaml'', Line = 4, Expr = ''{{- if .Values.b }}''\<rparr>)]"

section \<open>Running the injector again\<close>

text \<open>
  The declarations of a list of lines, found in one pass from the top: \<open>b\<close>
  says whether the line above carries the suppression text, \<open>k\<close> is the number
  of the first line.
\<close>

fun scanDecls :: "bool \<Rightarrow> nat \<Rightarrow> string list \<Rightarrow> (nat \<times> string) list" where
  "scanDecls b k [] = []"
| "scanDecls b k (l # ls) =
     (if conditionalRegex_MatchString l \<and> \<not> Contains l ignoreMarker \<and> \<not> b
      then [(k, l)] else []) @ scanDecls (Contains l ignoreMarker) (Suc k) ls"

text \<open>
  The lines of a file after annotation lines \<open>ann i\<close> were put before the
  lines \<open>i\<close> with \<open>A i\<close>.
\<close>

fun weave :: "(nat \<Rightarrow> bool) \<Rightarrow> (nat \<Rightarrow> string) \<Rightarrow> nat \<Rightarrow> string list \<Rightarrow> string list" where
  "weave A ann k [] = []"
| "weave A ann k (l # ls) = (if A k then [ann k, l] else [l]) @ weave A ann (Suc k) ls"

lemma scanDecls_declarations_aux:
  "map (\<lambda>i. (length P + i, ls ! i))
     (filter (\<lambda>i. isDeclaration (P @ ls) (length P + i)) [0..<length ls]) =
   scanDecls (P \<noteq> [] \<and> Contains (last P) ignoreMarker) (length P) ls"
proof (induction ls arbitrary: P)
  case Nil
  show ?case by simp
next
  case (Cons l ls)
  have u: "[0..<length (l # ls)] = 0 # map Suc [0..<length ls]"
    by (simp add: upt_conv_Cons map_Suc_upt del: upt_Suc)
  have h: "isDeclaration (P @ l # ls) (length P + 0) =
      (conditionalRegex_MatchString l \<and> \<not> Contains l ignoreMarker \<and>
       \<not> (P \<noteq> [] \<and> Contains (last P) ignoreMarker))"
    by (cases P rule: rev_cases) (auto simp: isDeclaration_def nth_append)
  have t: "map (\<lambda>i. (length P + i, (l # ls) ! i))
     (filter (\<lambda>i. isDeclaration (P @ l # ls) (length P + i)) (map Suc [0..<length ls])) =
     map (\<lambda>i. (length (P @ [l]) + i, ls ! i))
       (filter (\<lambda>i. isDeclaration ((P @ [l]) @ ls) (length (P @ [l]) + i)) [0..<length ls])"
    by (simp add: filter_map comp_def)
  have "map (\<lambda>i. (length P + i, (l # ls) ! i))
     (filter (\<lambda>i. isDeclaration (P @ l # ls) (length P + i)) [0..<length (l # ls)]) =
     (if isDeclaration (P @ l # ls) (length P + 0) then [(length P, l)] else []) @
     map (\<lambda>i. (length P + i, (l # ls) ! i))
       (filter (\<lambda>i. isDeclaration (P @ l # ls) (length P + i)) (map Suc [0..<length ls]))"
    unfolding u by simp
  also have "\<dots> = (if isDeclaration (P @ l # ls) (length P + 0) then [(length P, l)] else []) @
     scanDecls (Contains l ignoreMarker) (Suc (length P)) ls"
    unfolding t using Cons.IH [of "P @ [l]"] by simp
  also have "\<dots> = scanDecls (P \<noteq> [] \<and> Contains (last P) ignoreMarker) (length P) (l # ls)"
    unfolding h by simp
  finally show ?case .
qed

lemma scanDecls_declarations:
  "scanDecls False 0 L = map (\<lambda>i. (i, L ! i)) (declarations L)"
  using scanDecls_declarations_aux [of "[]" L] by (simp add: declarations_def)

lemma scanDecls_weave:
  assumes a: "\<forall>i. A i \<longrightarrow> Contains (ann i) ignoreMarker"
  shows "scanDecls b (k + length (filter A [0..<k])) (weave A ann k ls) =
     map (\<lambda>(i, l). (i + length (filter A [0..<Suc i]), l))
       (filter (\<lambda>(i, l). \<not> A i) (scanDecls b k ls))"
proof (induction ls arbitrary: b k)
  case Nil
  show ?case by simp
next
  case (Cons l ls)
  show ?case
  proof (cases "A k")
    case True
    with a have c: "Contains (ann k) ignoreMarker" by blast
    from True have s: "Suc k + length (filter A [0..<Suc k]) =
        Suc (Suc (k + length (filter A [0..<k])))" by simp
    from True c show ?thesis
      using Cons.IH [of "Contains l ignoreMarker" "Suc k"] unfolding s by simp
  next
    case False
    then have s: "Suc k + length (filter A [0..<Suc k]) = Suc (k + length (filter A [0..<k]))"
      by simp
    from False show ?thesis
      using Cons.IH [of "Contains l ignoreMarker" "Suc k"] unfolding s by simp
  qed
qed

lemma concat_Split_nl_weave:
  "length ls' = length ls \<Longrightarrow>
   \<forall>l\<in>set ls. CHR 0x0A \<notin> set l \<Longrightarrow>
   \<forall>i. CHR 0x0A \<notin> set (ann i) \<Longrightarrow>
   \<forall>i<length ls. ls' ! i = (if A (k + i) then ann (k + i) @ [CHR 0x0A] @ ls ! i else ls ! i) \<Longrightarrow>
   concat (map Split_nl ls') = weave A ann k ls"
proof (induction ls arbitrary: ls' k)
  case Nil
  then show ?case by simp
next
  case (Cons l ls)
  from Cons.prems(1) obtain x xs where x: "ls' = x # xs" "length xs = length ls"
    by (cases ls') auto
  from Cons.prems(4) [rule_format, of 0] x
  have x0: "x = (if A k then ann k @ [CHR 0x0A] @ l else l)" by simp
  have xs: "\<forall>i<length ls. xs ! i =
      (if A (Suc k + i) then ann (Suc k + i) @ [CHR 0x0A] @ ls ! i else ls ! i)"
  proof (intro allI impI)
    fix i assume "i < length ls"
    with Cons.prems(4) [rule_format, of "Suc i"] x
    show "xs ! i = (if A (Suc k + i) then ann (Suc k + i) @ [CHR 0x0A] @ ls ! i else ls ! i)"
      by simp
  qed
  from Cons.prems(2) have nl: "CHR 0x0A \<notin> set l" and nls: "\<forall>l\<in>set ls. CHR 0x0A \<notin> set l"
    by simp_all
  from Cons.prems(3) have na: "CHR 0x0A \<notin> set (ann k)" by blast
  have sx: "Split_nl x = (if A k then [ann k, l] else [l])"
    unfolding x0 using nl na by (simp add: Split_nl_append_nl Split_nl_no_newline)
  from Cons.IH [OF x(2) nls Cons.prems(3) xs] sx x(1) show ?case by simp
qed


text \<open>The entry of a declaration after \<open>U\<close> lines were put before lines of its file.\<close>

definition shiftLine :: "nat list \<Rightarrow> conditionalDeclRef \<Rightarrow> conditionalDeclRef" where
  "shiftLine U d = d\<lparr>Line := Line d + int (length (filter (\<lambda>j. j \<le> nat (Line d)) U))\<rparr>"

lemma length_filter_upt_distinct:
  assumes "distinct U"
  shows "length (filter (\<lambda>j. j \<in> set U) [0..<n]) = length (filter (\<lambda>j. j < n) U)"
proof -
  have "length (filter (\<lambda>j. j \<in> set U) [0..<n]) = card ({j. j \<in> set U} \<inter> set [0..<n])"
    by (rule distinct_length_filter) simp
  moreover have "length (filter (\<lambda>j. j < n) U) = card ({j. j < n} \<inter> set U)"
    using assms by (rule distinct_length_filter)
  moreover have "{j. j \<in> set U} \<inter> set [0..<n] = {j. j < n} \<inter> set U" by auto
  ultimately show ?thesis by simp
qed

lemma Contains_annotation: "Contains (Repeat_space n @ ignoreAnnotation) ignoreMarker"
proof -
  have "Repeat_space n @ ignoreAnnotation =
      (Repeat_space n @ ''{{/* '') @ ignoreMarker @ '' */}}''"
    by (simp add: ignoreAnnotation_def ignoreMarker_def)
  then show ?thesis unfolding Contains_def sublist_def by blast
qed

lemma annotation_no_newline: "CHR 0x0A \<notin> set (Repeat_space n @ ignoreAnnotation)"
  by (auto simp: Repeat_space_def ignoreAnnotation_def)

lemma fileDecls_scan:
  "fileDecls dir e =
     map (\<lambda>(i, l). \<lparr>File = drop (length dir + 1) (Path e), Line = int i, Expr = TrimSpace l\<rparr>)
       (scanDecls False 0 (Split_nl (Content e)))"
  by (simp add: fileDecls_def scanDecls_declarations declRef_def comp_def)

lemma fileDecls_woven:
  assumes c: "Split_nl (Content e') = weave (\<lambda>i. i \<in> set U) ann 0 (Split_nl (Content e))"
    and p: "Path e' = Path e"
    and a: "\<forall>i. i \<in> set U \<longrightarrow> Contains (ann i) ignoreMarker"
    and d: "distinct U"
  shows "fileDecls dir e' =
     map (shiftLine U) (filter (\<lambda>d. nat (Line d) \<notin> set U) (fileDecls dir e))"
proof -
  let ?A = "\<lambda>i. i \<in> set U"
  let ?L = "Split_nl (Content e)"
  have sh: "length (filter ?A [0..<Suc i]) = length (filter (\<lambda>j. j \<le> i) U)" for i
    using length_filter_upt_distinct [OF d, of "Suc i"] by (simp add: less_Suc_eq_le)
  have "scanDecls False 0 (Split_nl (Content e')) =
      scanDecls False (0 + length (filter ?A [0..<0])) (weave ?A ann 0 ?L)"
    unfolding c by simp
  also have "\<dots> = map (\<lambda>(i, l). (i + length (filter ?A [0..<Suc i]), l))
       (filter (\<lambda>(i, l). \<not> ?A i) (scanDecls False 0 ?L))"
    using a by (rule scanDecls_weave)
  finally have s: "scanDecls False 0 (Split_nl (Content e')) =
     map (\<lambda>(i, l). (i + length (filter (\<lambda>j. j \<le> i) U), l))
       (filter (\<lambda>(i, l). i \<notin> set U) (scanDecls False 0 ?L))"
    unfolding sh .
  show ?thesis
    unfolding fileDecls_scan s p
    by (simp add: filter_map comp_def shiftLine_def case_prod_unfold)
qed

lemma fileDecls_excepted:
  assumes x: "exceptedEntry dir ids seenIDs e e'"
    and d: "distinct (uncoveredLines dir ids seenIDs e)"
  shows "Path e' = Path e \<and> IsDir e' = IsDir e \<and>
     fileDecls dir e' =
       map (shiftLine (uncoveredLines dir ids seenIDs e))
         (filter (\<lambda>d. nat (Line d) \<notin> set (uncoveredLines dir ids seenIDs e)) (fileDecls dir e))"
proof (cases "uncoveredLines dir ids seenIDs e = []")
  case True
  with x have "e' = e" by (simp add: exceptedEntry_def)
  moreover have "map (shiftLine []) xs = xs" for xs
    by (induction xs) (simp_all add: shiftLine_def)
  ultimately show ?thesis using True by simp
next
  case False
  let ?U = "uncoveredLines dir ids seenIDs e"
  let ?L = "Split_nl (Content e)"
  from x False obtain lines' where e': "e' = e\<lparr>Content := Join_nl lines'\<rparr>"
    and len: "length lines' = length ?L"
    and each: "\<forall>i<length ?L.
                 if i \<in> set ?U
                 then (\<exists>n. lines' ! i = annotatedLine n (?L ! i) \<and>
                         (plainDeclarations ?L \<longrightarrow>
                            findIndentation ?L (int i) = Inr n \<and> markerIndentationIs ?L i n))
                 else lines' ! i = ?L ! i"
    unfolding exceptedEntry_def Let_def by auto
  have "\<forall>i. \<exists>n. i < length ?L \<and> i \<in> set ?U \<longrightarrow> lines' ! i = annotatedLine n (?L ! i)"
  proof
    fix i
    show "\<exists>n. i < length ?L \<and> i \<in> set ?U \<longrightarrow> lines' ! i = annotatedLine n (?L ! i)"
    proof (cases "i < length ?L \<and> i \<in> set ?U")
      case True
      then have i: "i < length ?L" and u: "i \<in> set ?U" by simp_all
      from each [rule_format, OF i] u
      obtain n where "lines' ! i = annotatedLine n (?L ! i)" by (simp only: if_True) blast
      then show ?thesis by blast
    next
      case False
      then show ?thesis by blast
    qed
  qed
  then have "\<exists>n. \<forall>i. i < length ?L \<and> i \<in> set ?U \<longrightarrow>
      lines' ! i = annotatedLine (n i) (?L ! i)"
    by (rule choice)
  then obtain n where n: "\<forall>i. i < length ?L \<and> i \<in> set ?U \<longrightarrow>
      lines' ! i = annotatedLine (n i) (?L ! i)" ..
  define ann where "ann i = Repeat_space (n i) @ ignoreAnnotation" for i
  have ne: "lines' \<noteq> []" using len Split_nl_nonempty [of "Content e"] by auto
  have nth: "\<forall>i<length ?L. lines' ! i =
      (if (0 + i) \<in> set ?U then ann (0 + i) @ [CHR 0x0A] @ ?L ! i else ?L ! i)"
  proof (intro allI impI)
    fix i assume i: "i < length ?L"
    show "lines' ! i = (if (0 + i) \<in> set ?U then ann (0 + i) @ [CHR 0x0A] @ ?L ! i else ?L ! i)"
    proof (cases "i \<in> set ?U")
      case True
      with n i have "lines' ! i = annotatedLine (n i) (?L ! i)" by blast
      with True show ?thesis by (simp add: annotatedLine_def ann_def)
    next
      case False
      with each [rule_format, OF i] show ?thesis by simp
    qed
  qed
  have "Split_nl (Content e') = concat (map Split_nl lines')"
    unfolding e' using ne by (simp add: Split_nl_Join_nl)
  also have "\<dots> = weave (\<lambda>i. i \<in> set ?U) ann 0 ?L"
  proof (rule concat_Split_nl_weave [OF len])
    show "\<forall>l\<in>set ?L. CHR 0x0A \<notin> set l" using Split_nl_lines_no_newline by blast
    show "\<forall>i. CHR 0x0A \<notin> set (ann i)" unfolding ann_def using annotation_no_newline by blast
    show "\<forall>i<length ?L. lines' ! i =
      (if (0 + i) \<in> set ?U then ann (0 + i) @ [CHR 0x0A] @ ?L ! i else ?L ! i)" by (rule nth)
  qed
  finally have c: "Split_nl (Content e') = weave (\<lambda>i. i \<in> set ?U) ann 0 ?L" .
  have p: "Path e' = Path e" and dd: "IsDir e' = IsDir e" unfolding e' by simp_all
  have a: "\<forall>i. i \<in> set ?U \<longrightarrow> Contains (ann i) ignoreMarker"
    unfolding ann_def using Contains_annotation by blast
  from fileDecls_woven [OF c p a d] p dd show ?thesis by blast
qed

lemma concat_map_filter_cong2:
  "length ys = length xs \<Longrightarrow>
   \<forall>k<length xs. Q (ys ! k) = Q (xs ! k) \<and> (Q (xs ! k) \<longrightarrow> g' (ys ! k) = g (xs ! k)) \<Longrightarrow>
   concat (map g' (filter Q ys)) = concat (map g (filter Q xs))"
proof (induction xs arbitrary: ys)
  case Nil
  then show ?case by simp
next
  case (Cons x xs)
  from Cons.prems(1) obtain y ys' where y: "ys = y # ys'" "length ys' = length xs"
    by (cases ys) auto
  from Cons.prems(2) [rule_format, of 0] y
  have h: "Q y = Q x" "Q x \<longrightarrow> g' y = g x" by simp_all
  have "\<forall>k<length xs. Q (ys' ! k) = Q (xs ! k) \<and> (Q (xs ! k) \<longrightarrow> g' (ys' ! k) = g (xs ! k))"
  proof (intro allI impI)
    fix k assume "k < length xs"
    with Cons.prems(2) [rule_format, of "Suc k"] y
    show "Q (ys' ! k) = Q (xs ! k) \<and> (Q (xs ! k) \<longrightarrow> g' (ys' ! k) = g (xs ! k))" by simp
  qed
  from Cons.IH [OF y(2) this] h y(1) show ?case by auto
qed

text \<open>
  The registry entries whose token survived, and the entry of a declaration
  after the annotation lines for the uncovered declarations of its file were
  inserted: its line number grows by the number of those at or above it.
\<close>

definition covered :: "registry \<Rightarrow> string list \<Rightarrow> registry" where
  "covered ids seenIDs = filter (\<lambda>(tok, d). tok \<in> set seenIDs) ids"

definition shiftedRef :: "registry \<Rightarrow> string list \<Rightarrow> conditionalDeclRef \<Rightarrow> conditionalDeclRef" where
  "shiftedRef ids seenIDs d =
     d\<lparr>Line := Line d + int (length (filter (\<lambda>(tok, r). File r = File d \<and> Line r \<le> Line d)
                                   (uncovered ids seenIDs)))\<rparr>"

lemma yaml_walk_cong:
  "Path e' = Path e \<Longrightarrow> IsDir e' = IsDir e \<Longrightarrow>
   ((Path e' = dir \<or> HasPrefix (Path e') (dir @ ''/'')) \<and> isYamlFile e') =
   ((Path e = dir \<or> HasPrefix (Path e) (dir @ ''/'')) \<and> isYamlFile e)"
  by (simp add: isYamlFile_def Name_def)

lemma treeDecls_walk:
  "treeDecls dir (walkEntries dir fs) =
     concat (map (fileDecls dir)
       (filter (\<lambda>e. (Path e = dir \<or> HasPrefix (Path e) (dir @ ''/'')) \<and> isYamlFile e) fs))"
  by (simp add: treeDecls_def walkEntries_def)

lemma treeDecls_excepted:
  assumes len: "length fs' = length fs"
    and each: "\<forall>k<length fs. exceptedEntry dir ids seenIDs (fs ! k) (fs' ! k)"
    and du: "\<forall>e. distinct (uncoveredLines dir ids seenIDs e)"
  shows "treeDecls dir (walkEntries dir fs') =
     concat (map (\<lambda>e. map (shiftLine (uncoveredLines dir ids seenIDs e))
                     (filter (\<lambda>d. nat (Line d) \<notin> set (uncoveredLines dir ids seenIDs e))
                        (fileDecls dir e)))
       (filter isYamlFile (walkEntries dir fs)))"
    and "map Path fs' = map Path fs" and "map IsDir fs' = map IsDir fs"
proof -
  let ?Q = "\<lambda>e. (Path e = dir \<or> HasPrefix (Path e) (dir @ ''/'')) \<and> isYamlFile e"
  let ?g = "\<lambda>e. map (shiftLine (uncoveredLines dir ids seenIDs e))
                     (filter (\<lambda>d. nat (Line d) \<notin> set (uncoveredLines dir ids seenIDs e))
                        (fileDecls dir e))"
  have k: "Path (fs' ! k) = Path (fs ! k) \<and> IsDir (fs' ! k) = IsDir (fs ! k) \<and>
      fileDecls dir (fs' ! k) = ?g (fs ! k)" if "k < length fs" for k
    using fileDecls_excepted [OF each [rule_format, OF that] du [rule_format]] .
  show "map Path fs' = map Path fs"
    using len k by (intro nth_equalityI) simp_all
  show "map IsDir fs' = map IsDir fs"
    using len k by (intro nth_equalityI) simp_all
  have "\<forall>k<length fs. ?Q (fs' ! k) = ?Q (fs ! k) \<and>
      (?Q (fs ! k) \<longrightarrow> fileDecls dir (fs' ! k) = ?g (fs ! k))"
  proof (intro allI impI)
    fix j assume j: "j < length fs"
    from k [OF j] have p: "Path (fs' ! j) = Path (fs ! j)" and d: "IsDir (fs' ! j) = IsDir (fs ! j)"
      and f: "fileDecls dir (fs' ! j) = ?g (fs ! j)" by blast+
    from yaml_walk_cong [OF p d] f
    show "?Q (fs' ! j) = ?Q (fs ! j) \<and> (?Q (fs ! j) \<longrightarrow> fileDecls dir (fs' ! j) = ?g (fs ! j))"
      by blast
  qed
  from concat_map_filter_cong2 [OF len this]
  have "concat (map (fileDecls dir) (filter ?Q fs')) = concat (map ?g (filter ?Q fs))" .
  moreover have "filter ?Q fs = filter isYamlFile (walkEntries dir fs)"
    by (simp add: walkEntries_def)
  ultimately show "treeDecls dir (walkEntries dir fs') =
     concat (map ?g (filter isYamlFile (walkEntries dir fs)))"
    unfolding treeDecls_walk by simp
qed

text \<open>Facts of a registry that holds the declarations of a tree.\<close>

lemma registry_key_inj:
  assumes dk: "distinct (map (\<lambda>r. (File r, Line r)) (map snd ids))"
    and x: "(tok, r) \<in> set ids" and y: "(tok', r') \<in> set ids"
    and f: "File r = File r'" and l: "Line r = Line r'"
  shows "tok = tok' \<and> r = r'"
proof -
  from dk have "distinct (map ((\<lambda>r. (File r, Line r)) \<circ> snd) ids)" by simp
  then have "inj_on ((\<lambda>r. (File r, Line r)) \<circ> snd) (set ids)" by (simp only: distinct_map)
  moreover from f l have "((\<lambda>r. (File r, Line r)) \<circ> snd) (tok, r) =
      ((\<lambda>r. (File r, Line r)) \<circ> snd) (tok', r')" by simp
  ultimately have "(tok, r) = (tok', r')" using x y by (rule inj_onD)
  then show ?thesis by simp
qed

lemma uncovered_mem:
  "(tok, r) \<in> set (uncovered ids seenIDs) \<longleftrightarrow> (tok, r) \<in> set ids \<and> tok \<notin> set seenIDs"
  by (auto simp: uncovered_def)

lemma covered_mem:
  "(tok, r) \<in> set (covered ids seenIDs) \<longleftrightarrow> (tok, r) \<in> set ids \<and> tok \<in> set seenIDs"
  by (auto simp: covered_def)

lemma uncoveredLines_distinct:
  assumes dk: "distinct (map (\<lambda>r. (File r, Line r)) (map snd ids))"
    and nn: "\<forall>r\<in>snd ` set ids. 0 \<le> Line r"
  shows "distinct (uncoveredLines dir ids seenIDs e)"
proof -
  let ?xs = "filter (\<lambda>(tok, r). Join dir (File r) = Path e) (uncovered ids seenIDs)"
  from dk have "distinct (map snd ids)" by (simp only: distinct_map)
  then have "distinct ids" by (simp only: distinct_map)
  then have d: "distinct ?xs" by (simp add: uncovered_def)
  have "inj_on (\<lambda>(tok, r). nat (Line r)) (set ?xs)"
  proof (rule inj_onI, clarify)
    fix tok r tok' r'
    assume x: "(tok, r) \<in> set ?xs" and y: "(tok', r') \<in> set ?xs"
      and e: "nat (Line r) = nat (Line r')"
    from x y have m: "(tok, r) \<in> set ids" "(tok', r') \<in> set ids"
      by (simp_all add: uncovered_mem)
    from x y have "Join dir (File r) = Join dir (File r')" by simp
    then have f: "File r = File r'" by (rule Join_inject)
    from m nn have "0 \<le> Line r" "0 \<le> Line r'" by force+
    with e have l: "Line r = Line r'" by simp
    from registry_key_inj [OF dk m f l] show "tok = tok' \<and> r = r'" .
  qed
  with d show ?thesis unfolding uncoveredLines_def by (simp only: distinct_map)
qed

lemma covered_filter:
  assumes dk: "distinct (map (\<lambda>r. (File r, Line r)) (map snd ids))"
  shows "map snd (covered ids seenIDs) =
     filter (\<lambda>d. d \<notin> snd ` set (uncovered ids seenIDs)) (map snd ids)"
proof -
  have "filter (\<lambda>d. d \<notin> snd ` set (uncovered ids seenIDs)) (map snd ids) =
      map snd (filter (\<lambda>x. snd x \<notin> snd ` set (uncovered ids seenIDs)) ids)"
    by (simp add: filter_map comp_def)
  also have "filter (\<lambda>x. snd x \<notin> snd ` set (uncovered ids seenIDs)) ids =
      filter (\<lambda>(tok, d). tok \<in> set seenIDs) ids"
  proof (rule filter_cong [OF refl])
    fix x assume xi: "x \<in> set ids"
    obtain tok d where x: "x = (tok, d)" by (cases x)
    with xi have m: "(tok, d) \<in> set ids" by simp
    have "(d \<notin> snd ` set (uncovered ids seenIDs)) = (tok \<in> set seenIDs)"
    proof
      assume n: "d \<notin> snd ` set (uncovered ids seenIDs)"
      show "tok \<in> set seenIDs"
      proof (rule ccontr)
        assume "tok \<notin> set seenIDs"
        with m have "(tok, d) \<in> set (uncovered ids seenIDs)" by (simp add: uncovered_mem)
        then have "d \<in> snd ` set (uncovered ids seenIDs)" by force
        with n show False by blast
      qed
    next
      assume s: "tok \<in> set seenIDs"
      show "d \<notin> snd ` set (uncovered ids seenIDs)"
      proof
        assume "d \<in> snd ` set (uncovered ids seenIDs)"
        then obtain tok' where u: "(tok', d) \<in> set (uncovered ids seenIDs)" by auto
        then have m': "(tok', d) \<in> set ids" and ns: "tok' \<notin> set seenIDs"
          by (simp_all add: uncovered_mem)
        from registry_key_inj [OF dk m m' refl refl] have "tok = tok'" by simp
        with s ns show False by simp
      qed
    qed
    with x show "(snd x \<notin> snd ` set (uncovered ids seenIDs)) =
        (case x of (tok, d) \<Rightarrow> tok \<in> set seenIDs)" by simp
  qed
  finally show ?thesis by (simp add: covered_def)
qed

lemma map_filter_cong2:
  "\<forall>x\<in>set xs. P x = Q x \<and> f x = g x \<Longrightarrow> map f (filter P xs) = map g (filter Q xs)"
  by (induction xs) auto

lemma length_filter_mono:
  "\<forall>x\<in>set xs. P x \<longrightarrow> Q x \<Longrightarrow> length (filter P xs) \<le> length (filter Q xs)"
  by (induction xs) auto

lemma registry_Line_nonneg:
  assumes root: "\<forall>e\<in>set fs. Path e = dir \<longrightarrow> IsDir e"
    and reg: "mset (map snd ids) = mset (treeDecls dir (walkEntries dir fs))"
  shows "\<forall>r\<in>snd ` set ids. 0 \<le> Line r"
proof
  fix r assume "r \<in> snd ` set ids"
  then have "r \<in> set (map snd ids)" by simp
  then have "r \<in> set (treeDecls dir (walkEntries dir fs))"
    using mset_eq_setD [OF reg] by simp
  from treeDecls_entry [OF root this] show "0 \<le> Line r" by blast
qed

lemma fileDecls_shift_cong:
  assumes dp: "distinct (map Path fs)"
    and root: "\<forall>e\<in>set fs. Path e = dir \<longrightarrow> IsDir e"
    and reg: "mset (map snd ids) = mset (treeDecls dir (walkEntries dir fs))"
    and e: "e \<in> set (walkEntries dir fs)" and y: "isYamlFile e"
  shows "map (shiftLine (uncoveredLines dir ids seenIDs e))
           (filter (\<lambda>d. nat (Line d) \<notin> set (uncoveredLines dir ids seenIDs e)) (fileDecls dir e)) =
         map (shiftedRef ids seenIDs)
           (filter (\<lambda>d. d \<notin> snd ` set (uncovered ids seenIDs)) (fileDecls dir e))"
proof (rule map_filter_cong2, rule ballI)
  fix d assume d: "d \<in> set (fileDecls dir e)"
  let ?U = "uncoveredLines dir ids seenIDs e"
  let ?unc = "uncovered ids seenIDs"
  have dk: "distinct (map (\<lambda>r. (File r, Line r)) (map snd ids))"
    using dp root reg by (rule registry_distinct)
  have nn: "\<forall>r\<in>snd ` set ids. 0 \<le> Line r" using root reg by (rule registry_Line_nonneg)
  have pe: "Join dir (drop (length dir + 1) (Path e)) = Path e"
    using root e y by (rule Walk_yaml_Join)
  from d have fd: "File d = drop (length dir + 1) (Path e)" by (rule fileDecls_File)
  with pe have jd: "Join dir (File d) = Path e" by simp
  from d e y have "d \<in> set (treeDecls dir (walkEntries dir fs))" unfolding treeDecls_mem by blast
  then have "d \<in> set (map snd ids)" using mset_eq_setD [OF reg] by simp
  then obtain tok0 where m0: "(tok0, d) \<in> set ids" by auto
  from m0 nn have dn: "0 \<le> Line d" by force
  have same: "(Join dir (File r) = Path e) = (File r = File d)" for r
    using jd Join_inject [of dir "File r" "File d"] by auto
  have a: "(nat (Line d) \<notin> set ?U) = (d \<notin> snd ` set ?unc)"
  proof -
    have "(nat (Line d) \<in> set ?U) = (d \<in> snd ` set ?unc)"
    proof
      assume "nat (Line d) \<in> set ?U"
      then obtain tok r where r: "(tok, r) \<in> set ?unc" "Join dir (File r) = Path e"
        "nat (Line d) = nat (Line r)" unfolding uncoveredLines_mem by blast
      from r(1) have m: "(tok, r) \<in> set ids" by (simp add: uncovered_mem)
      with nn have "0 \<le> Line r" by force
      with r(3) dn have l: "Line r = Line d" by simp
      from r(2) have f: "File r = File d" by (simp only: same)
      from registry_key_inj [OF dk m m0 f l] have "r = d" by simp
      with r(1) show "d \<in> snd ` set ?unc" by force
    next
      assume "d \<in> snd ` set ?unc"
      then obtain tok where "(tok, d) \<in> set ?unc" by auto
      with jd show "nat (Line d) \<in> set ?U" unfolding uncoveredLines_mem by blast
    qed
    then show ?thesis by simp
  qed
  have "length (filter (\<lambda>j. j \<le> nat (Line d)) ?U) =
      length (filter (\<lambda>(tok, r). Join dir (File r) = Path e \<and> nat (Line r) \<le> nat (Line d)) ?unc)"
    unfolding uncoveredLines_def
    by (simp add: filter_map comp_def case_prod_unfold conj_commute)
  also have "filter (\<lambda>(tok, r). Join dir (File r) = Path e \<and> nat (Line r) \<le> nat (Line d)) ?unc =
      filter (\<lambda>(tok, r). File r = File d \<and> Line r \<le> Line d) ?unc"
  proof (rule filter_cong [OF refl])
    fix x assume xi: "x \<in> set ?unc"
    obtain tok r where x: "x = (tok, r)" by (cases x)
    with xi have "(tok, r) \<in> set ids" by (simp add: uncovered_mem)
    with nn have "0 \<le> Line r" by force
    from dn have "(nat (Line r) \<le> nat (Line d)) = (Line r \<le> Line d)"
      by (rule nat_le_eq_zle [OF disjI2])
    with x same [of r]
    show "(case x of (tok, r) \<Rightarrow> Join dir (File r) = Path e \<and> nat (Line r) \<le> nat (Line d)) =
        (case x of (tok, r) \<Rightarrow> File r = File d \<and> Line r \<le> Line d)" by simp
  qed
  finally have b: "shiftLine ?U d = shiftedRef ids seenIDs d"
    by (simp add: shiftLine_def shiftedRef_def)
  from a b show "(nat (Line d) \<notin> set ?U) = (d \<notin> snd ` set ?unc) \<and>
      shiftLine ?U d = shiftedRef ids seenIDs d" by blast
qed

lemma treeDecls_round_trip:
  assumes dp: "distinct (map Path fs)"
    and root: "\<forall>e\<in>set fs. Path e = dir \<longrightarrow> IsDir e"
    and reg: "mset (map snd ids) = mset (treeDecls dir (walkEntries dir fs))"
    and len: "length fs' = length fs"
    and each: "\<forall>k<length fs. exceptedEntry dir ids seenIDs (fs ! k) (fs' ! k)"
  shows "treeDecls dir (walkEntries dir fs') =
           map (shiftedRef ids seenIDs)
             (filter (\<lambda>d. d \<notin> snd ` set (uncovered ids seenIDs))
                (treeDecls dir (walkEntries dir fs)))"
    and "map Path fs' = map Path fs" and "map IsDir fs' = map IsDir fs"
    and "mset (treeDecls dir (walkEntries dir fs')) =
           image_mset (shiftedRef ids seenIDs) (mset (map snd (covered ids seenIDs)))"
proof -
  have dk: "distinct (map (\<lambda>r. (File r, Line r)) (map snd ids))"
    using dp root reg by (rule registry_distinct)
  have nn: "\<forall>r\<in>snd ` set ids. 0 \<le> Line r" using root reg by (rule registry_Line_nonneg)
  have du: "\<forall>e. distinct (uncoveredLines dir ids seenIDs e)"
    using uncoveredLines_distinct [OF dk nn] by blast
  note t = treeDecls_excepted [OF len each du]
  show "map Path fs' = map Path fs" by (rule t(2))
  show "map IsDir fs' = map IsDir fs" by (rule t(3))
  let ?Y = "filter isYamlFile (walkEntries dir fs)"
  let ?N = "\<lambda>d. d \<notin> snd ` set (uncovered ids seenIDs)"
  have "treeDecls dir (walkEntries dir fs') =
      concat (map (\<lambda>e. map (shiftedRef ids seenIDs) (filter ?N (fileDecls dir e))) ?Y)"
    unfolding t(1)
  proof (rule arg_cong [where f = concat], rule map_cong [OF refl])
    fix e assume "e \<in> set ?Y"
    then have e: "e \<in> set (walkEntries dir fs)" and y: "isYamlFile e" by simp_all
    from fileDecls_shift_cong [OF dp root reg e y]
    show "map (shiftLine (uncoveredLines dir ids seenIDs e))
           (filter (\<lambda>d. nat (Line d) \<notin> set (uncoveredLines dir ids seenIDs e)) (fileDecls dir e)) =
         map (shiftedRef ids seenIDs) (filter ?N (fileDecls dir e))" .
  qed
  also have "\<dots> = map (shiftedRef ids seenIDs) (filter ?N (concat (map (fileDecls dir) ?Y)))"
    by (simp add: map_concat filter_concat comp_def)
  also have "concat (map (fileDecls dir) ?Y) = treeDecls dir (walkEntries dir fs)"
    by (simp add: treeDecls_def)
  finally show l: "treeDecls dir (walkEntries dir fs') =
      map (shiftedRef ids seenIDs) (filter ?N (treeDecls dir (walkEntries dir fs)))" .
  have "mset (filter ?N (treeDecls dir (walkEntries dir fs))) =
      filter_mset ?N (mset (treeDecls dir (walkEntries dir fs)))" by (rule mset_filter)
  also have "\<dots> = filter_mset ?N (mset (map snd ids))" by (simp only: reg)
  also have "\<dots> = mset (filter ?N (map snd ids))" by (rule mset_filter [symmetric])
  also have "filter ?N (map snd ids) = map snd (covered ids seenIDs)"
    using covered_filter [OF dk] by simp
  finally have "image_mset (shiftedRef ids seenIDs)
        (mset (filter ?N (treeDecls dir (walkEntries dir fs)))) =
      image_mset (shiftedRef ids seenIDs) (mset (map snd (covered ids seenIDs)))"
    by (rule arg_cong)
  moreover have "mset (treeDecls dir (walkEntries dir fs')) =
      image_mset (shiftedRef ids seenIDs)
        (mset (filter ?N (treeDecls dir (walkEntries dir fs))))"
    unfolding l by (rule mset_map)
  ultimately show "mset (treeDecls dir (walkEntries dir fs')) =
      image_mset (shiftedRef ids seenIDs) (mset (map snd (covered ids seenIDs)))"
    by (rule trans [rotated])
qed

lemma shiftedRef_simps:
  "File (shiftedRef ids seenIDs d) = File d"
  "Expr (shiftedRef ids seenIDs d) = Expr d"
  by (simp_all add: shiftedRef_def)

lemma shiftedRef_Line_inj:
  assumes f: "File d = File d'"
    and l: "Line (shiftedRef ids seenIDs d) = Line (shiftedRef ids seenIDs d')"
  shows "Line d = Line d'"
proof -
  let ?c = "\<lambda>x. length (filter (\<lambda>(tok, r). File r = File x \<and> Line r \<le> Line x)
                                   (uncovered ids seenIDs))"
  have mono: "?c x \<le> ?c x'" if "File x = File x'" "Line x \<le> Line x'" for x x' :: conditionalDeclRef
    using that by (intro length_filter_mono) auto
  from l have eq: "Line d + int (?c d) = Line d' + int (?c d')" by (simp add: shiftedRef_def)
  show ?thesis
  proof (rule ccontr)
    assume "Line d \<noteq> Line d'"
    then consider "Line d < Line d'" | "Line d' < Line d" by linarith
    then show False
    proof cases
      case 1
      with mono [of d d'] f have "?c d \<le> ?c d'" by simp
      with 1 eq show False by linarith
    next
      case 2
      with mono [of d' d] f have "?c d' \<le> ?c d" by simp
      with 2 eq show False by linarith
    qed
  qed
qed

text \<open>
  Claim C7, the suppression round trip. After \<^verbatim>\<open>injectExceptions\<close> has
  rewritten the chart tree for a registry that holds its declarations, in any
  order, \<^verbatim>\<open>injectComments\<close> run on the rewritten tree registers exactly the
  declarations whose token had survived, each with the same file and text and
  with its line number moved down by the annotation lines inserted above it; no
  entry of the new registry stands at the line of a declaration that got an
  annotation.
\<close>

theorem suppression_round_trip:
  assumes dp: "distinct (map Path fs)"
    and rd: "\<exists>e\<in>set fs. Path e = ChartDir opts \<and> IsDir e"
    and reg: "mset (map snd ids) =
                mset (treeDecls (ChartDir opts) (walkEntries (ChartDir opts) fs))"
    and u: "\<forall>j. isUUIDString (uuid j)"
    and i: "inj_on uuid {0..<length ids}"
  shows "\<exists>t' fs' fs'' ids'.
     injectExceptions t opts ids seenIDs fs = ((t', fs'), None) \<and>
     injectComments uuid (ChartDir opts) fs' = Inr (fs'', ids') \<and>
     mset (map snd ids') =
       image_mset (shiftedRef ids seenIDs) (mset (map snd (covered ids seenIDs))) \<and>
     (\<forall>(tok, d)\<in>set (uncovered ids seenIDs). \<forall>r\<in>set (map snd ids').
        \<not> (File r = File d \<and> Line r = Line (shiftedRef ids seenIDs d)))"
proof -
  let ?dir = "ChartDir opts"
  note root = Walk_dir(2) [OF dp rd]
  from injectExceptions_entries [OF dp root reg, of t seenIDs] obtain t' fs' where
    r: "injectExceptions t opts ids seenIDs fs = ((t', fs'), None)"
    and len: "length fs' = length fs"
    and each: "\<forall>k<length fs. exceptedEntry ?dir ids seenIDs (fs ! k) (fs' ! k)" by blast
  note rt = treeDecls_round_trip [OF dp root reg len each]
  let ?rs = "treeDecls ?dir (walkEntries ?dir fs')"
  have ms: "mset ?rs =
      image_mset (shiftedRef ids seenIDs) (mset (map snd (covered ids seenIDs)))"
    by (rule rt(4))
  have dk: "distinct (map (\<lambda>r. (File r, Line r)) (map snd ids))"
    using dp root reg by (rule registry_distinct)
  from dp rt(2) have dp': "distinct (map Path fs')" by simp
  have rd': "\<exists>e\<in>set fs'. Path e = ?dir \<and> IsDir e"
  proof -
    from rd obtain k where k: "k < length fs" "Path (fs ! k) = ?dir" "IsDir (fs ! k)"
      by (auto simp: in_set_conv_nth)
    from k(1) len have kf: "k < length fs'" by simp
    have "Path (fs' ! k) = map Path fs' ! k" using kf by simp
    also have "\<dots> = Path (fs ! k)" unfolding rt(2) using k(1) by simp
    finally have pk: "Path (fs' ! k) = ?dir" using k(2) by simp
    have "IsDir (fs' ! k) = map IsDir fs' ! k" using kf by simp
    also have "\<dots> = IsDir (fs ! k)" unfolding rt(3) using k(1) by simp
    finally have "IsDir (fs' ! k)" using k(3) by simp
    moreover from kf have "fs' ! k \<in> set fs'" by simp
    ultimately show ?thesis using pk by blast
  qed
  from injectComments_result [OF dp' rd' u] obtain fs'' where
    c: "injectComments uuid ?dir fs' = Inr (fs'', registeredAll uuid 0 ?rs [])" by blast
  have "length ?rs = size (mset ?rs)" by simp
  also have "\<dots> = length (covered ids seenIDs)" unfolding ms by simp
  also have "\<dots> \<le> length ids" by (simp add: covered_def)
  finally have "{0..<0 + length ?rs} \<subseteq> {0..<length ids}" by simp
  with i have "inj_on uuid {0..<0 + length ?rs}" by (rule inj_on_subset)
  then have z: "registeredAll uuid 0 ?rs [] = zip (map uuid [0..<0 + length ?rs]) ?rs"
    by (rule registeredAll_fresh)
  let ?ids' = "zip (map uuid [0..<0 + length ?rs]) ?rs"
  have s: "map snd ?ids' = ?rs" by (simp add: map_snd_zip)
  have s2: "mset (map snd ?ids') =
      image_mset (shiftedRef ids seenIDs) (mset (map snd (covered ids seenIDs)))"
    unfolding s by (rule ms)
  have no: "\<forall>(tok, d)\<in>set (uncovered ids seenIDs). \<forall>r\<in>set (map snd ?ids').
        \<not> (File r = File d \<and> Line r = Line (shiftedRef ids seenIDs d))"
  proof (intro ballI, clarify)
    fix tok d r
    assume un: "(tok, d) \<in> set (uncovered ids seenIDs)" and rm: "r \<in> set (map snd ?ids')"
      and f: "File r = File d" and l: "Line r = Line (shiftedRef ids seenIDs d)"
    from rm have "r \<in> set_mset (mset (map snd ?ids'))" by simp
    then have "r \<in> shiftedRef ids seenIDs ` set (map snd (covered ids seenIDs))"
      unfolding s2 by simp
    then obtain tok' d' where c': "(tok', d') \<in> set (covered ids seenIDs)"
      and rd: "r = shiftedRef ids seenIDs d'" by auto
    from f rd have f': "File d' = File d" by (simp add: shiftedRef_simps)
    from l rd have "Line (shiftedRef ids seenIDs d') = Line (shiftedRef ids seenIDs d)" by simp
    with f' have l': "Line d' = Line d" by (rule shiftedRef_Line_inj)
    from un have m: "(tok, d) \<in> set ids" and ns: "tok \<notin> set seenIDs"
      by (simp_all add: uncovered_mem)
    from c' have m': "(tok', d') \<in> set ids" and sn: "tok' \<in> set seenIDs"
      by (simp_all add: covered_mem)
    from registry_key_inj [OF dk m' m f' l'] have "tok' = tok" by simp
    with ns sn show False by simp
  qed
  from c z have c2: "injectComments uuid ?dir fs' = Inr (fs'', ?ids')" by simp
  show ?thesis
    by (rule exI [of _ t'], rule exI [of _ fs'], rule exI [of _ fs''], rule exI [of _ ?ids'])
      (intro conjI r c2 s2 no)
qed

text \<open>
  The example chart, with its registry in the order opposite to the walk: the
  first declaration is uncovered and gets an annotation, the second run registers
  the second declaration only, now at line 5.
\<close>

definition exampleRoundTrip :: "conditionalDeclRef list" where
  "exampleRoundTrip =
     [\<lparr>File = ''templates/cm.yaml'', Line = 5, Expr = ''{{- if .Values.b }}''\<rparr>]"

theorem suppression_round_trip_witness:
  "distinct (map Path exampleFS)
   \<and> list_ex (\<lambda>e. Path e = ChartDir exampleOptions \<and> IsDir e) exampleFS
   \<and> mset (map snd (rev exampleIds)) =
       mset (treeDecls (ChartDir exampleOptions) (walkEntries (ChartDir exampleOptions) exampleFS))
   \<and> (\<forall>j. isUUIDString (exampleUUID j))
   \<and> inj_on exampleUUID {0..<length (rev exampleIds)}
   \<and> map snd (uncovered (rev exampleIds) [exampleUUID 1]) =
       [\<lparr>File = ''templates/cm.yaml'', Line = 1, Expr = ''{{ if .Values.a }}''\<rparr>]
   \<and> (\<exists>t' fs' fs'' ids'.
        injectExceptions \<lparr>Errors = [], Logs = []\<rparr> exampleOptions (rev exampleIds)
          [exampleUUID 1] exampleFS = ((t', fs'), None) \<and>
        injectComments exampleUUID (ChartDir exampleOptions) fs' = Inr (fs'', ids') \<and>
        mset (map snd ids') = mset exampleRoundTrip)"
proof -
  have d: "distinct (map Path exampleFS)" by code_simp
  have c: "ChartDir exampleOptions = ''/chart''" by (simp add: exampleOptions_def)
  have r: "\<exists>e\<in>set exampleFS. Path e = ChartDir exampleOptions \<and> IsDir e"
    unfolding c by (rule exampleFS_rootDir)
  have "map snd exampleIds =
       treeDecls (ChartDir exampleOptions) (walkEntries (ChartDir exampleOptions) exampleFS)"
    by code_simp
  then have "mset (map snd exampleIds) =
       mset (treeDecls (ChartDir exampleOptions) (walkEntries (ChartDir exampleOptions) exampleFS))"
    by simp
  then have g: "mset (map snd (rev exampleIds)) =
       mset (treeDecls (ChartDir exampleOptions) (walkEntries (ChartDir exampleOptions) exampleFS))"
    by (simp add: rev_map [symmetric])
  have u: "\<forall>j. isUUIDString (exampleUUID j)" by (simp add: exampleUUID_isUUIDString)
  have "length (rev exampleIds) = 2" by (simp add: exampleIds_def)
  with exampleUUID_inj2 have i: "inj_on exampleUUID {0..<length (rev exampleIds)}" by simp
  have n: "map snd (uncovered (rev exampleIds) [exampleUUID 1]) =
       [\<lparr>File = ''templates/cm.yaml'', Line = 1, Expr = ''{{ if .Values.a }}''\<rparr>]"
    by code_simp
  have "map (shiftedRef (rev exampleIds) [exampleUUID 1])
          (map snd (covered (rev exampleIds) [exampleUUID 1])) = exampleRoundTrip"
    by code_simp
  then have "mset (map (shiftedRef (rev exampleIds) [exampleUUID 1])
          (map snd (covered (rev exampleIds) [exampleUUID 1]))) = mset exampleRoundTrip"
    by (rule arg_cong)
  then have e: "image_mset (shiftedRef (rev exampleIds) [exampleUUID 1])
          (mset (map snd (covered (rev exampleIds) [exampleUUID 1]))) = mset exampleRoundTrip"
    unfolding mset_map .
  from suppression_round_trip [OF d r g u i, of "\<lparr>Errors = [], Logs = []\<rparr>" "[exampleUUID 1]"]
  have "\<exists>t' fs' fs'' ids'.
        injectExceptions \<lparr>Errors = [], Logs = []\<rparr> exampleOptions (rev exampleIds)
          [exampleUUID 1] exampleFS = ((t', fs'), None) \<and>
        injectComments exampleUUID (ChartDir exampleOptions) fs' = Inr (fs'', ids') \<and>
        mset (map snd ids') = mset exampleRoundTrip"
    unfolding e by blast
  moreover have "list_ex (\<lambda>e. Path e = ChartDir exampleOptions \<and> IsDir e) exampleFS"
    using r by (simp only: list_ex_iff)
  ultimately show ?thesis using d g u i n by blast
qed

section \<open>Configuration\<close>











section \<open>The state of a run\<close>

text \<open>
  What the stages of \<^verbatim>\<open>Lint\<close> share: the test handle, the file system, the
  registry map \<^verbatim>\<open>ids\<close>, the tokens \<^verbatim>\<open>seenIDs\<close>, and the \<^verbatim>\<open>conftest\<close>
  commands run so far, each with its policy directory and the directory it tests.
\<close>

record world =
  Test :: T
  Disk :: filesystem
  Ids :: registry
  SeenIDs :: "string list"
  Invoked :: "(string \<times> string) list"

text \<open>
  The commands \<^verbatim>\<open>conftest test --policy policiesDir dir\<close> and
  \<^verbatim>\<open>helm template --output-dir outputPath --values fixturePath chartDir\<close>, each
  with its error (\<open>None\<close> for exit status 0) and its combined output;
  \<^verbatim>\<open>helm\<close> writes files.
\<close>

type_synonym conftestCmd = "string \<Rightarrow> string \<Rightarrow> filesystem \<Rightarrow> string option \<times> string"

type_synonym helmCmd =
  "string \<Rightarrow> string \<Rightarrow> string \<Rightarrow> filesystem \<Rightarrow> string option \<times> string \<times> filesystem"

text \<open>\<^verbatim>\<open>filepath.Base\<close> and \<^verbatim>\<open>filepath.Ext\<close>.\<close>

definition Base :: "string \<Rightarrow> string" where
  "Base p =
     (if p = [] then ''.''
      else (let q = dropWhile (\<lambda>c. c = CHR ''/'') (rev p)
            in if q = [] then ''/'' else rev (takeWhile (\<lambda>c. c \<noteq> CHR ''/'') q)))"

definition Ext :: "string \<Rightarrow> string" where
  "Ext p =
     (let r = takeWhile (\<lambda>c. c \<noteq> CHR ''.'' \<and> c \<noteq> CHR ''/'') (rev p);
          rest = drop (length r) (rev p)
      in if rest \<noteq> [] \<and> hd rest = CHR ''.'' then CHR ''.'' # rev r else [])"

text \<open>
  \<^verbatim>\<open>os.ReadDir\<close>: the entries directly below a directory, in the order of the
  file system.
\<close>

definition ReadDir :: "string \<Rightarrow> filesystem \<Rightarrow> error + entry list" where
  "ReadDir p fs =
     (case find (\<lambda>e. Path e = p) fs of
        None \<Rightarrow> Inl (ReadError p)
      | Some e \<Rightarrow>
          if IsDir e
          then Inr (filter (\<lambda>e. HasPrefix (Path e) (p @ ''/'') \<and>
                                 drop (length p + 1) (Path e) \<noteq> [] \<and>
                                 CHR ''/'' \<notin> set (drop (length p + 1) (Path e))) fs)
          else Inl (ReadError p))"

text \<open>
  \<^verbatim>\<open>os.MkdirAll\<close>: the directory and its missing parents are created; it fails
  when one of them is a regular file.
\<close>

definition Mkdir :: "string \<Rightarrow> filesystem \<Rightarrow> error + filesystem" where
  "Mkdir p fs =
     (case find (\<lambda>e. Path e = p) fs of
        None \<Rightarrow> Inr (fs @ [\<lparr>Path = p, IsDir = True, Content = []\<rparr>])
      | Some e \<Rightarrow> if IsDir e then Inr fs else Inl (WriteError p))"

definition MkdirAll :: "string \<Rightarrow> filesystem \<Rightarrow> error + filesystem" where
  "MkdirAll p fs =
     forEach Mkdir (filter (\<lambda>q. q \<noteq> [] \<and> (q = p \<or> HasPrefix p (q @ ''/''))) (prefixes p)) fs"

definition mkdirError :: "error \<Rightarrow> string" where
  "mkdirError e =
     (case e of
        WriteError p \<Rightarrow> ''mkdir '' @ p @ '': not a directory''
      | _ \<Rightarrow> errorString e)"

section \<open>Policy evaluation and recursion\<close>

definition runConftest :: "conftestCmd \<Rightarrow> string \<Rightarrow> string \<Rightarrow> world \<Rightarrow> string option \<times> world" where
  "runConftest conftest policiesDir dir w =
     (case conftest policiesDir dir (Disk w) of
        (None, out) \<Rightarrow>
          (None, w\<lparr>Test := Logf (Test w)
                              (''Conftest output ('' @ Base dir @ ''):'' @ [CHR 0x0A] @ out),
                   Invoked := Invoked w @ [(policiesDir, dir)]\<rparr>)
      | (Some err, out) \<Rightarrow>
          (Some err, w\<lparr>Test := Errorf (Test w)
                              (''Conftest failure ('' @ Base dir @ ''):'' @ [CHR 0x0A] @
                               (if length out = 0 then err else out)),
                       Invoked := Invoked w @ [(policiesDir, dir)]\<rparr>))"

text \<open>
  The unit of work of a recursion rule, lines 311 to 321; the error of
  \<^verbatim>\<open>os.ReadDir\<close> is dropped there.
\<close>

definition recurse ::
  "conftestCmd \<Rightarrow> recursionRule \<Rightarrow> string \<Rightarrow> string \<Rightarrow> world \<Rightarrow> string option \<times> world" where
  "recurse conftest rule dir target w =
     (case Fn rule dir target (Disk w) of
        (Some err, fs') \<Rightarrow>
          (Some err, w\<lparr>Test := Errorf (Test w) (''error in recursion function: '' @ err),
                       Disk := fs'\<rparr>)
      | (None, fs') \<Rightarrow>
          (let files = (case ReadDir target fs' of Inl err \<Rightarrow> [] | Inr files \<Rightarrow> files) in
           if length files = 0 then (None, w\<lparr>Disk := fs'\<rparr>)
           else runConftest conftest (PoliciesDir (Opts rule)) target (w\<lparr>Disk := fs'\<rparr>)))"

definition recursionTarget :: "string \<Rightarrow> string \<Rightarrow> nat \<Rightarrow> string" where
  "recursionTarget recursionDir dir i =
     Join recursionDir (Base dir @ ''-recursion-'' @ formatInt (int i))"

text \<open>
  The body of \<^verbatim>\<open>for i, rule := range opts.Recursions\<close>. Every unit of work runs
  to its end when it is submitted to the group; what it returns is dropped by
  \<^verbatim>\<open>grp.Wait()\<close>, whose result \<^verbatim>\<open>walkRenderedChart\<close> does not read.
\<close>

definition recursionStep ::
  "conftestCmd \<Rightarrow> string \<Rightarrow> string \<Rightarrow> nat \<Rightarrow> recursionRule \<Rightarrow> world \<Rightarrow> world" where
  "recursionStep conftest recursionDir dir i rule w =
     (let target = recursionTarget recursionDir dir i in
      case MkdirAll target (Disk w) of
        Inl err \<Rightarrow>
          w\<lparr>Test := Errorf (Test w) (''unable to create recursion directory: '' @ mkdirError err)\<rparr>
      | Inr fs' \<Rightarrow> snd (recurse conftest rule dir target (w\<lparr>Disk := fs'\<rparr>)))"

fun recursionLoop ::
  "conftestCmd \<Rightarrow> string \<Rightarrow> string \<Rightarrow> nat \<Rightarrow> recursionRule list \<Rightarrow> world \<Rightarrow> world" where
  "recursionLoop conftest recursionDir dir i [] w = w"
| "recursionLoop conftest recursionDir dir i (rule # rules) w =
     recursionLoop conftest recursionDir dir (Suc i) rules
       (recursionStep conftest recursionDir dir i rule w)"

text \<open>The policies of the chart and the visitors, for one rendered directory.\<close>

definition visitStart :: "conftestCmd \<Rightarrow> options \<Rightarrow> string \<Rightarrow> world \<Rightarrow> world" where
  "visitStart conftest opts dir w =
     fold (\<lambda>fn w. w\<lparr>Test := fn (Test w) dir (Disk w)\<rparr>) (Visitors opts)
       (snd (runConftest conftest (PoliciesDir opts) dir w))"

text \<open>The body of \<^verbatim>\<open>for _, dir := range outputDirs\<close>.\<close>

definition visit :: "conftestCmd \<Rightarrow> options \<Rightarrow> string \<Rightarrow> string \<Rightarrow> world \<Rightarrow> world" where
  "visit conftest opts recursionDir dir w =
     recursionLoop conftest recursionDir dir 0 (Recursions opts) (visitStart conftest opts dir w)"

definition walkRenderedChart ::
  "conftestCmd \<Rightarrow> options \<Rightarrow> string \<Rightarrow> string list \<Rightarrow> world \<Rightarrow> world" where
  "walkRenderedChart conftest opts dir outputDirs w =
     fold (visit conftest opts (Join dir ''recursions'')) outputDirs w"

section \<open>Rendering, and the stages of a run\<close>

text \<open>
  The loop of \<^verbatim>\<open>renderChart\<close> over the fixtures: the output directories, the
  first error of a \<^verbatim>\<open>helm\<close> command, and the state. A failed command does not
  stop the others.
\<close>

fun renderFixtures ::
  "helmCmd \<Rightarrow> string \<Rightarrow> string \<Rightarrow> string \<Rightarrow> entry list \<Rightarrow>
   string list \<times> string option \<times> world \<Rightarrow> string list \<times> string option \<times> world" where
  "renderFixtures helm fixturesDir chartDir resultsDir [] st = st"
| "renderFixtures helm fixturesDir chartDir resultsDir (fixture # fixtures) (outputDirs, err, w) =
     (if IsDir fixture \<or> Ext (Name fixture) \<noteq> ''.yaml''
      then renderFixtures helm fixturesDir chartDir resultsDir fixtures (outputDirs, err, w)
      else
        (let fixturePath = Join fixturesDir (Name fixture);
             outputPath = Join resultsDir
                            (take (length (Name fixture) - length ''.yaml'') (Name fixture))
         in case helm outputPath fixturePath chartDir (Disk w) of
              (None, out, fs') \<Rightarrow>
                renderFixtures helm fixturesDir chartDir resultsDir fixtures
                  (outputDirs @ [outputPath], err, w\<lparr>Disk := fs'\<rparr>)
            | (Some e, out, fs') \<Rightarrow>
                renderFixtures helm fixturesDir chartDir resultsDir fixtures
                  (outputDirs @ [outputPath],
                   (case err of
                      None \<Rightarrow> Some (''rendering chart with fixture '' @ [CHR 0x22] @
                                     Name fixture @ [CHR 0x22] @ '': '' @ out)
                    | Some first \<Rightarrow> Some first),
                   w\<lparr>Disk := fs'\<rparr>)))"

text \<open>
  \<^verbatim>\<open>renderChart\<close>; \<open>Inl\<close> is the message of \<^verbatim>\<open>t.Fatalf\<close>, which ends the
  test, and \<open>elapsed\<close> is the time the deferred log prints.
\<close>

definition renderChart ::
  "helmCmd \<Rightarrow> string \<Rightarrow> options \<Rightarrow> string \<Rightarrow> string \<Rightarrow> world \<Rightarrow> string + string list \<times> world" where
  "renderChart helm elapsed opts chartDir resultsDir w =
     (case ReadDir (FixturesDir opts) (Disk w) of
        Inl err \<Rightarrow> Inl (''reading fixtures: '' @ errorString err)
      | Inr fixtures \<Rightarrow>
          (case renderFixtures helm (FixturesDir opts) chartDir resultsDir fixtures ([], None, w) of
             (outputDirs, Some err, w') \<Rightarrow> Inl (''rendering chart: '' @ err)
           | (outputDirs, None, w') \<Rightarrow>
               Inr (outputDirs,
                    w'\<lparr>Test := Logf (Test w')
                                (''rendered the chart for every fixture in '' @ elapsed)\<rparr>)))"

text \<open>
  Lines 46 to 68 of \<^verbatim>\<open>Lint\<close>, for a temporary directory \<open>dir\<close> that holds the
  copy of the chart; \<open>Inl\<close> is the message of \<^verbatim>\<open>t.Fatalf\<close> or of a panic.
\<close>

definition Lint ::
  "(nat \<Rightarrow> string) \<Rightarrow> helmCmd \<Rightarrow> string \<Rightarrow> conftestCmd \<Rightarrow> options \<Rightarrow> string \<Rightarrow> world \<Rightarrow>
   string + world" where
  "Lint uuid helm elapsed conftest opts dir w =
     (let chartDir = Join dir ''chart'' in
      case injectComments uuid chartDir (Disk w) of
        Inl err \<Rightarrow> Inl (''injecting comments: '' @ errorString err)
      | Inr (fs1, ids) \<Rightarrow>
          (let resultsDir = Join dir ''results'' in
           case renderChart helm elapsed opts chartDir resultsDir (w\<lparr>Disk := fs1, Ids := ids\<rparr>) of
             Inl msg \<Rightarrow> Inl msg
           | Inr (outputDirs, w2) \<Rightarrow>
               (let w3 = (case discoverComments resultsDir (Disk w2) of
                            (seenIDs, None) \<Rightarrow> w2\<lparr>SeenIDs := seenIDs\<rparr>
                          | (seenIDs, Some err) \<Rightarrow>
                              w2\<lparr>SeenIDs := seenIDs,
                                 Test := Errorf (Test w2)
                                           (''discovering comments: '' @ errorString err)\<rparr>)
                in case reconcile (Test w3) opts (Ids w3) (SeenIDs w3) (Disk w3) of
                     Inl err \<Rightarrow> Inl (errorString err)
                   | Inr (t', fs4) \<Rightarrow>
                       Inr (walkRenderedChart conftest opts dir outputDirs
                              (w3\<lparr>Test := t', Disk := fs4\<rparr>)))))"

section \<open>The registry after injection\<close>

lemma runConftest_Ids: "Ids (snd (runConftest c p d w)) = Ids w"
  by (simp add: runConftest_def split: prod.splits option.splits)

lemma recurse_Ids: "Ids (snd (recurse c rule d target w)) = Ids w"
proof -
  obtain e fs' where f: "Fn rule d target (Disk w) = (e, fs')"
    by (cases "Fn rule d target (Disk w)")
  show ?thesis
  proof (cases e)
    case (Some err)
    with f show ?thesis by (simp add: recurse_def)
  next
    case None
    with f runConftest_Ids [of c "PoliciesDir (Opts rule)" target "w\<lparr>Disk := fs'\<rparr>"]
    show ?thesis by (simp add: recurse_def Let_def)
  qed
qed

lemma recursionStep_Ids: "Ids (recursionStep c r d i rule w) = Ids w"
proof (cases "MkdirAll (recursionTarget r d i) (Disk w)")
  case (Inl e)
  then show ?thesis by (simp add: recursionStep_def)
next
  case (Inr fs')
  with recurse_Ids [of c rule d "recursionTarget r d i" "w\<lparr>Disk := fs'\<rparr>"]
  show ?thesis by (simp add: recursionStep_def)
qed

lemma recursionLoop_Ids: "Ids (recursionLoop c r d i rules w) = Ids w"
  by (induction rules arbitrary: i w) (simp_all add: recursionStep_Ids)

lemma visitors_Ids:
  "Ids (fold (\<lambda>fn w. w\<lparr>Test := fn (Test w) d (Disk w)\<rparr>) vs w) = Ids w"
  by (induction vs arbitrary: w) simp_all

lemma visit_Ids: "Ids (visit c opts r d w) = Ids w"
  by (simp add: visit_def visitStart_def recursionLoop_Ids visitors_Ids runConftest_Ids)

lemma walkRenderedChart_Ids: "Ids (walkRenderedChart c opts dir ds w) = Ids w"
  unfolding walkRenderedChart_def
  by (induction ds arbitrary: w) (simp_all add: visit_Ids)

lemma renderFixtures_Ids:
  "renderFixtures helm fd cd rd fixtures (outs, err, w) = (outs', err', w') \<Longrightarrow> Ids w' = Ids w"
proof (induction fixtures arbitrary: outs err w)
  case Nil
  then show ?case by simp
next
  case (Cons fixture fixtures)
  show ?case
  proof (cases "IsDir fixture \<or> Ext (Name fixture) \<noteq> ''.yaml''")
    case True
    with Cons.prems have "renderFixtures helm fd cd rd fixtures (outs, err, w) = (outs', err', w')"
      by simp
    then show ?thesis by (rule Cons.IH)
  next
    case False
    let ?out = "Join rd (take (length (Name fixture) - length ''.yaml'') (Name fixture))"
    obtain e out fs' where h: "helm ?out (Join fd (Name fixture)) cd (Disk w) = (e, out, fs')"
      by (cases "helm ?out (Join fd (Name fixture)) cd (Disk w)")
    from Cons.prems False h obtain err2 where
      "renderFixtures helm fd cd rd fixtures (outs @ [?out], err2, w\<lparr>Disk := fs'\<rparr>) =
         (outs', err', w')"
      by (cases e) (simp_all add: Let_def)
    then have "Ids w' = Ids (w\<lparr>Disk := fs'\<rparr>)" by (rule Cons.IH)
    then show ?thesis by simp
  qed
qed

lemma renderChart_Ids:
  assumes "renderChart helm elapsed opts cd rd w = Inr (outputDirs, w')"
  shows "Ids w' = Ids w"
proof -
  from assms obtain fixtures where "ReadDir (FixturesDir opts) (Disk w) = Inr fixtures"
    by (cases "ReadDir (FixturesDir opts) (Disk w)") (simp_all add: renderChart_def)
  with assms obtain outs w1 where
    r: "renderFixtures helm (FixturesDir opts) cd rd fixtures ([], None, w) = (outs, None, w1)"
    and w': "w' = w1\<lparr>Test := Logf (Test w1) (''rendered the chart for every fixture in '' @ elapsed)\<rparr>"
    by (auto simp: renderChart_def split: prod.splits option.splits)
  from renderFixtures_Ids [OF r] w' show ?thesis by simp
qed

text \<open>
  The stages of a run after the injection leave the registry as
  \<^verbatim>\<open>injectComments\<close> returned it.
\<close>

lemma Lint_Ids:
  assumes "Lint uuid helm elapsed conftest opts dir w = Inr w'"
  shows "\<exists>fs1. injectComments uuid (Join dir ''chart'') (Disk w) = Inr (fs1, Ids w')"
proof -
  from assms obtain fs1 ids where
    i: "injectComments uuid (Join dir ''chart'') (Disk w) = Inr (fs1, ids)"
    by (cases "injectComments uuid (Join dir ''chart'') (Disk w)")
      (auto simp: Lint_def Let_def)
  let ?w1 = "w\<lparr>Disk := fs1, Ids := ids\<rparr>"
  from assms i obtain outputDirs w2 where
    r: "renderChart helm elapsed opts (Join dir ''chart'') (Join dir ''results'') ?w1 =
          Inr (outputDirs, w2)"
    by (cases "renderChart helm elapsed opts (Join dir ''chart'') (Join dir ''results'') ?w1")
      (auto simp: Lint_def Let_def)
  from renderChart_Ids [OF r] have i2: "Ids w2 = ids" by simp
  define w3 where "w3 = (case discoverComments (Join dir ''results'') (Disk w2) of
                            (seenIDs, None) \<Rightarrow> w2\<lparr>SeenIDs := seenIDs\<rparr>
                          | (seenIDs, Some err) \<Rightarrow>
                              w2\<lparr>SeenIDs := seenIDs,
                                 Test := Errorf (Test w2)
                                           (''discovering comments: '' @ errorString err)\<rparr>)"
  have i3: "Ids w3 = ids"
    unfolding w3_def using i2 by (simp split: prod.splits option.splits)
  have L: "Lint uuid helm elapsed conftest opts dir w =
      (case reconcile (Test w3) opts (Ids w3) (SeenIDs w3) (Disk w3) of
         Inl err \<Rightarrow> Inl (errorString err)
       | Inr (t', fs4) \<Rightarrow>
           Inr (walkRenderedChart conftest opts dir outputDirs (w3\<lparr>Test := t', Disk := fs4\<rparr>)))"
    unfolding w3_def Lint_def Let_def using i r by simp
  obtain t' fs4 where
    "w' = walkRenderedChart conftest opts dir outputDirs (w3\<lparr>Test := t', Disk := fs4\<rparr>)"
  proof (cases "reconcile (Test w3) opts (Ids w3) (SeenIDs w3) (Disk w3)")
    case (Inl err)
    with L assms show ?thesis by simp
  next
    case (Inr x)
    obtain t' fs4 where "x = (t', fs4)" by (cases x)
    with Inr L assms that show ?thesis by simp
  qed
  then have "Ids w' = ids" using i3 by (simp add: walkRenderedChart_Ids)
  with i show ?thesis by blast
qed

section \<open>Properties of the recursion\<close>














definition okConftest :: conftestCmd where
  "okConftest policiesDir dir fs = (None, ''ok'')"




definition exampleWorld :: "filesystem \<Rightarrow> world" where
  "exampleWorld fs =
     \<lparr>Test = \<lparr>Errors = [], Logs = []\<rparr>, Disk = fs, Ids = [], SeenIDs = [], Invoked = []\<rparr>"






text \<open>
  Claim C4. In a file system without duplicate paths that holds the walked
  directory, with pairwise different tokens, \<^verbatim>\<open>injectComments\<close> succeeds and
  returns a registry with exactly one entry per declaration the line classifier
  finds in the \<open>.yaml\<close> files of the tree: as many entries as declarations,
  under pairwise different tokens, each with the path of its file relative to the
  walked directory, its zero-based line number and its trimmed text
  (\<^const>\<open>fileDecls\<close>). And the registry is the same at the end of the run:
  rendering and the walk over the rendered charts leave the registry of the state
  as it is, and a run of \<^verbatim>\<open>Lint\<close> that reaches its end, through rendering,
  scanning, reconciliation and recursion, ends with the registry
  \<^verbatim>\<open>injectComments\<close> returned.
\<close>

theorem injectComments_registry:
  assumes d: "distinct (map Path fs)"
    and r: "\<exists>e\<in>set fs. Path e = dir \<and> IsDir e"
    and u: "\<forall>j. isUUIDString (uuid j)"
    and i: "inj_on uuid {0..<length (treeDecls dir (walkEntries dir fs))}"
  shows "\<exists>fs' ids.
     injectComments uuid dir fs = Inr (fs', ids) \<and>
     map snd ids = treeDecls dir (walkEntries dir fs) \<and>
     map fst ids = map uuid [0..<length ids] \<and>
     distinct (map fst ids) \<and>
     length ids = length (treeDecls dir (walkEntries dir fs)) \<and>
     (\<forall>helm elapsed opts chartDir resultsDir w outputDirs w'.
        renderChart helm elapsed opts chartDir resultsDir w = Inr (outputDirs, w') \<longrightarrow>
        Ids w' = Ids w) \<and>
     (\<forall>conftest opts tmp outputDirs w.
        Ids (walkRenderedChart conftest opts tmp outputDirs w) = Ids w) \<and>
     (\<forall>helm elapsed conftest opts tmp w w'.
        dir = Join tmp ''chart'' \<and> Disk w = fs \<and>
        Lint uuid helm elapsed conftest opts tmp w = Inr w' \<longrightarrow> Ids w' = ids)"
proof -
  from injectComments_registered [OF d r u i] obtain fs' ids where
    a: "injectComments uuid dir fs = Inr (fs', ids)"
    "map snd ids = treeDecls dir (walkEntries dir fs)"
    "map fst ids = map uuid [0..<length ids]"
    "distinct (map fst ids)"
    "length ids = length (treeDecls dir (walkEntries dir fs))" by blast
  have b: "\<forall>helm elapsed opts chartDir resultsDir w outputDirs w'.
        renderChart helm elapsed opts chartDir resultsDir w = Inr (outputDirs, w') \<longrightarrow>
        Ids w' = Ids w"
    using renderChart_Ids by blast
  have c: "\<forall>conftest opts tmp outputDirs w.
        Ids (walkRenderedChart conftest opts tmp outputDirs w) = Ids w"
    using walkRenderedChart_Ids by blast
  have e: "\<forall>helm elapsed conftest opts tmp w w'.
        dir = Join tmp ''chart'' \<and> Disk w = fs \<and>
        Lint uuid helm elapsed conftest opts tmp w = Inr w' \<longrightarrow> Ids w' = ids"
  proof (intro allI impI)
    fix helm elapsed conftest opts tmp w w'
    assume h: "dir = Join tmp ''chart'' \<and> Disk w = fs \<and>
        Lint uuid helm elapsed conftest opts tmp w = Inr w'"
    then have "Lint uuid helm elapsed conftest opts tmp w = Inr w'" by blast
    from Lint_Ids [OF this] obtain fs1 where
      "injectComments uuid (Join tmp ''chart'') (Disk w) = Inr (fs1, Ids w')" by blast
    with h a(1) show "Ids w' = ids" by simp
  qed
  from a b c e show ?thesis by blast
qed

text \<open>
  A run on a copy of the example chart, with one fixture whose rendering holds
  the marker of the first declaration.
\<close>

definition runFS :: filesystem where
  "runFS =
     [\<lparr>Path = ''/chart'', IsDir = True, Content = []\<rparr>,
      \<lparr>Path = ''/chart/fixtures'', IsDir = True, Content = []\<rparr>,
      \<lparr>Path = ''/chart/fixtures/a.yaml'', IsDir = False, Content = ''a: true''\<rparr>,
      \<lparr>Path = ''/tmp'', IsDir = True, Content = []\<rparr>,
      \<lparr>Path = ''/tmp/x'', IsDir = True, Content = []\<rparr>,
      \<lparr>Path = ''/tmp/x/chart'', IsDir = True, Content = []\<rparr>,
      \<lparr>Path = ''/tmp/x/chart/templates'', IsDir = True, Content = []\<rparr>,
      \<lparr>Path = ''/tmp/x/chart/templates/cm.yaml'', IsDir = False, Content = exampleContent\<rparr>]"

definition runOptions :: options where
  "runOptions = Options False False 4 ''/chart'' ''/chart/fixtures'' ''/chart/policies'' [] []"

definition exampleHelm :: helmCmd where
  "exampleHelm outputPath fixturePath chartDir fs =
     (case MkdirAll outputPath fs of
        Inl e \<Rightarrow> (Some ''exit status 1'', mkdirError e, fs)
      | Inr fs' \<Rightarrow>
          (None, [],
           fs' @ [\<lparr>Path = Join outputPath ''cm.yaml'', IsDir = False,
                   Content = ''data: |'' @ [CHR 0x0A] @ ''  # helmlint: '' @ exampleUUID 0\<rparr>]))"

theorem injectComments_registry_witness:
  "distinct (map Path runFS)
   \<and> list_ex (\<lambda>e. Path e = ''/tmp/x/chart'' \<and> IsDir e) runFS
   \<and> (\<forall>j. isUUIDString (exampleUUID j))
   \<and> inj_on exampleUUID {0..<length (treeDecls ''/tmp/x/chart'' (walkEntries ''/tmp/x/chart'' runFS))}
   \<and> ''/tmp/x/chart'' = Join ''/tmp/x'' ''chart''
   \<and> map_sum id SeenIDs
        (Lint exampleUUID exampleHelm ''1s'' okConftest runOptions ''/tmp/x'' (exampleWorld runFS)) =
       Inr [exampleUUID 0]
   \<and> (\<exists>fs' ids w'.
        injectComments exampleUUID ''/tmp/x/chart'' runFS = Inr (fs', ids) \<and>
        length ids = 2 \<and>
        Lint exampleUUID exampleHelm ''1s'' okConftest runOptions ''/tmp/x'' (exampleWorld runFS) =
          Inr w' \<and>
        Ids w' = ids)"
proof -
  let ?run = "Lint exampleUUID exampleHelm ''1s'' okConftest runOptions ''/tmp/x''
      (exampleWorld runFS)"
  have d: "distinct (map Path runFS)" by (simp add: runFS_def)
  have r: "\<exists>e\<in>set runFS. Path e = ''/tmp/x/chart'' \<and> IsDir e" by (simp add: runFS_def)
  have u: "\<forall>j. isUUIDString (exampleUUID j)" by (simp add: exampleUUID_isUUIDString)
  have n: "length (treeDecls ''/tmp/x/chart'' (walkEntries ''/tmp/x/chart'' runFS)) = 2"
    by code_simp
  have i: "inj_on exampleUUID
      {0..<length (treeDecls ''/tmp/x/chart'' (walkEntries ''/tmp/x/chart'' runFS))}"
    using exampleUUID_inj2 by (simp only: n)
  have j: "''/tmp/x/chart'' = Join ''/tmp/x'' ''chart''" by (simp add: Join_def)
  have s: "map_sum id SeenIDs ?run = Inr [exampleUUID 0]" by code_simp
  then obtain w' where w': "?run = Inr w'" by (cases ?run) simp_all
  have k: "Disk (exampleWorld runFS) = runFS" by (simp add: exampleWorld_def)
  let ?P = "\<lambda>fs' ids.
     injectComments exampleUUID ''/tmp/x/chart'' runFS = Inr (fs', ids) \<and>
     map snd ids = treeDecls ''/tmp/x/chart'' (walkEntries ''/tmp/x/chart'' runFS) \<and>
     map fst ids = map exampleUUID [0..<length ids] \<and>
     distinct (map fst ids) \<and>
     length ids = length (treeDecls ''/tmp/x/chart'' (walkEntries ''/tmp/x/chart'' runFS)) \<and>
     (\<forall>helm elapsed opts chartDir resultsDir w outputDirs w'.
        renderChart helm elapsed opts chartDir resultsDir w = Inr (outputDirs, w') \<longrightarrow>
        Ids w' = Ids w) \<and>
     (\<forall>conftest opts tmp outputDirs w.
        Ids (walkRenderedChart conftest opts tmp outputDirs w) = Ids w) \<and>
     (\<forall>helm elapsed conftest opts tmp w w'.
        ''/tmp/x/chart'' = Join tmp ''chart'' \<and> Disk w = runFS \<and>
        Lint exampleUUID helm elapsed conftest opts tmp w = Inr w' \<longrightarrow> Ids w' = ids)"
  from injectComments_registry [OF d r u i] obtain fs' where "\<exists>ids. ?P fs' ids" ..
  then obtain ids where H: "?P fs' ids" ..
  from H have a: "injectComments exampleUUID ''/tmp/x/chart'' runFS = Inr (fs', ids)"
    by (rule conjunct1)
  from H have l: "length ids =
      length (treeDecls ''/tmp/x/chart'' (walkEntries ''/tmp/x/chart'' runFS))"
    by (elim conjE)
  from H have f: "\<forall>helm elapsed conftest opts tmp w w'.
        ''/tmp/x/chart'' = Join tmp ''chart'' \<and> Disk w = runFS \<and>
        Lint exampleUUID helm elapsed conftest opts tmp w = Inr w' \<longrightarrow> Ids w' = ids"
    by (elim conjE)
  from f [rule_format, of "''/tmp/x''" "exampleWorld runFS" exampleHelm "''1s''" okConftest
      runOptions w'] j k w'
  have "Ids w' = ids" by simp
  with a l n w' have "\<exists>fs' ids w'.
        injectComments exampleUUID ''/tmp/x/chart'' runFS = Inr (fs', ids) \<and>
        length ids = 2 \<and> ?run = Inr w' \<and> Ids w' = ids" by simp
  moreover have "list_ex (\<lambda>e. Path e = ''/tmp/x/chart'' \<and> IsDir e) runFS"
    using r by (simp only: list_ex_iff)
  ultimately show ?thesis using d u i j s by blast
qed

end
